theory Spec2Isabelle
  imports Main "HOL-Library.AList"
begin


section \<open>Bounded edit distance (\<^verbatim>\<open>bounded_levenshtein\<close>, Search.py 150-195)\<close>

text \<open>
  Strings are lists of characters; the matcher only compares characters for equality, so
  it is modelled over an arbitrary element type. Python's unbounded integers are
  \<^typ>\<open>int\<close>; list positions are \<^typ>\<open>nat\<close>.

  The reference notion is the Levenshtein distance by its usual recursion on the heads
  of the two strings (insertion, deletion and substitution each cost 1).
\<close>

fun trueLevenshtein :: "'a list \<Rightarrow> 'a list \<Rightarrow> nat" where
  "trueLevenshtein [] ys = length ys"
| "trueLevenshtein (x # xs) [] = Suc (length xs)"
| "trueLevenshtein (x # xs) (y # ys) =
     min (min (trueLevenshtein xs (y # ys) + 1) (trueLevenshtein (x # xs) ys + 1))
         (trueLevenshtein xs ys + (if x = y then 0 else 1))"

text \<open>
  One cell of the dynamic program, the body of the inner loop:
  \<^verbatim>\<open>cost = 0 if ai == b[j-1] else 1; cur[j] = min(prev[j]+1, cur[j-1]+1, prev[j-1]+cost)\<close>.
\<close>

definition lev_cell :: "int list \<Rightarrow> int list \<Rightarrow> 'a \<Rightarrow> 'a list \<Rightarrow> nat \<Rightarrow> int" where
  "lev_cell prev cur ai b j =
     (let cost = (if ai = b ! (j - 1) then 0 else 1)
      in min (prev ! j + 1) (min (cur ! (j - 1) + 1) (prev ! (j - 1) + cost)))"

text \<open>
  The inner loop \<^verbatim>\<open>for j in range(start, end + 1)\<close> over the state
  \<^verbatim>\<open>(cur, row_min)\<close>. Every index it touches lies in \<open>1..nb\<close>, inside the lists.
\<close>

fun lev_inner :: "int list \<Rightarrow> 'a \<Rightarrow> 'a list \<Rightarrow> nat list \<Rightarrow> int list \<Rightarrow> int \<Rightarrow> int list \<times> int" where
  "lev_inner prev ai b [] cur row_min = (cur, row_min)"
| "lev_inner prev ai b (j # js) cur row_min =
     (let v = lev_cell prev cur ai b j
      in lev_inner prev ai b js (cur[j := v]) (if v < row_min then v else row_min))"

text \<open>
  The outer loop \<^verbatim>\<open>for i in range(1, na + 1)\<close> over the state \<^verbatim>\<open>prev\<close>, with the early
  return \<^verbatim>\<open>if row_min > k: return big\<close>; when the rows are exhausted the function's last
  line \<^verbatim>\<open>return prev[nb] if prev[nb] <= k else big\<close> is reached.
\<close>

fun lev_rows :: "'a list \<Rightarrow> 'a list \<Rightarrow> int \<Rightarrow> nat list \<Rightarrow> int list \<Rightarrow> int" where
  "lev_rows a b k [] prev = (if prev ! length b \<le> k then prev ! length b else k + 1)"
| "lev_rows a b k (i # is) prev =
     (let nb = length b;
          big = k + 1;
          start = max 1 (int i - k);
          end = min (int nb) (int i + k);
          cur = (replicate (nb + 1) big)[0 := int i];
          (cur', row_min) = lev_inner prev (a ! (i - 1)) b (map nat [start..end]) cur big
      in if row_min > k then big else lev_rows a b k is cur')"

text \<open>
  The function itself: the two pre-checks, the swap that makes \<^verbatim>\<open>a\<close> the shorter string,
  and the loop started on \<^verbatim>\<open>prev = list(range(nb + 1))\<close>.
\<close>

definition bounded_levenshtein :: "'a list \<Rightarrow> 'a list \<Rightarrow> int \<Rightarrow> int" where
  "bounded_levenshtein a b k =
     (if a = b then 0
      else if \<bar>int (length a) - int (length b)\<bar> > k then k + 1
      else (let (a', b') = (if length a > length b then (b, a) else (a, b));
                na = length a'; nb = length b'
            in lev_rows a' b' k [1..<na + 1] (map int [0..<nb + 1])))"

subsection \<open>The full table and the cut-off\<close>

text \<open>
  \<open>lev_D a b i j\<close> is the distance between the prefixes of lengths \<open>i\<close> and \<open>j\<close>, the
  value a full (unbanded) table would hold. The banded rows agree with it up to the
  cut-off: \<open>lev_cap k\<close> identifies all values above \<open>k\<close>.
\<close>

definition lev_D :: "'a list \<Rightarrow> 'a list \<Rightarrow> nat \<Rightarrow> nat \<Rightarrow> int" where
  "lev_D a b i j = int (trueLevenshtein (take i a) (take j b))"

definition lev_cap :: "int \<Rightarrow> int \<Rightarrow> int" where
  "lev_cap k x = min x (k + 1)"

definition lev_row_ok :: "'a list \<Rightarrow> 'a list \<Rightarrow> int \<Rightarrow> nat \<Rightarrow> int list \<Rightarrow> bool" where
  "lev_row_ok a b k i row \<longleftrightarrow>
     length row = length b + 1 \<and>
     (\<forall>j\<le>length b. lev_cap k (row ! j) = lev_cap k (lev_D a b i j))"

section \<open>Masking comments and literals (\<^verbatim>\<open>mask_cpp_comments_and_strings\<close>, Search.py 38-143)\<close>

text \<open>
  Text is a \<^typ>\<open>string\<close>, one element for each character of the Python string. The
  masker compares characters only with \<^verbatim>\<open>/ * " ' R ( )\<close>, the backslash, the newline
  and the space:
  \<open>CHR 0x0A\<close> is the newline, \<open>CHR 0x22\<close> the double quote, \<open>CHR 0x27\<close> the single quote
  and \<open>CHR 0x5C\<close> the backslash.

  \<^verbatim>\<open>put_spaces(a, b)\<close> overwrites the positions \<open>a \<le> k < b\<close> of the working copy
  \<^verbatim>\<open>out\<close> with spaces and leaves newlines alone. The source would raise an
  \<^verbatim>\<open>IndexError\<close> for \<open>k \<ge> len(out)\<close>; every call of the masker has \<open>b \<le> len(src)\<close>
  (lemma \<open>mask_region_bounds\<close> below), so that case is never reached.
\<close>

definition put_spaces :: "string \<Rightarrow> nat \<Rightarrow> nat \<Rightarrow> string" where
  "put_spaces out a b =
     fold (\<lambda>k out. if out ! k \<noteq> CHR 0x0A then out[k := CHR '' ''] else out) [a..<b] out"

text \<open>
  The inner loops move the index forward. \<^verbatim>\<open>while i < n and src[i] != c: i += 1\<close> appears
  twice, for the end of a line comment (\<open>c\<close> the newline) and for the opening parenthesis of
  a raw string.
\<close>

function scan_until :: "string \<Rightarrow> char \<Rightarrow> nat \<Rightarrow> nat" where
  "scan_until src c i =
     (if i < length src \<and> src ! i \<noteq> c then scan_until src c (i + 1) else i)"
  by pat_completeness auto

termination
  by (relation "measure (\<lambda>(src, c, i). length src - i)") auto

text \<open>
  \<^verbatim>\<open>while i + 1 < n and not (src[i] == "*" and src[i + 1] == "/"): i += 1\<close>
\<close>

function skip_block :: "string \<Rightarrow> nat \<Rightarrow> nat" where
  "skip_block src i =
     (if i + 1 < length src \<and> \<not> (src ! i = CHR ''*'' \<and> src ! (i + 1) = CHR ''/'')
      then skip_block src (i + 1) else i)"
  by pat_completeness auto

termination
  by (relation "measure (\<lambda>(src, i). length src - i)") auto

text \<open>
  The body of a string or character literal, the same loop for both quote characters
  \<open>q\<close>: a backslash that is not the last character skips two positions, the closing
  quote ends the literal, anything else skips one position.
\<close>

function skip_quoted :: "string \<Rightarrow> char \<Rightarrow> nat \<Rightarrow> nat" where
  "skip_quoted src q i =
     (if i < length src then
        (if src ! i = CHR 0x5C \<and> i + 1 < length src then skip_quoted src q (i + 2)
         else if src ! i = q then i + 1
         else skip_quoted src q (i + 1))
      else i)"
  by pat_completeness auto

termination
  by (relation "measure (\<lambda>(src, q, i). length src - i)") auto

text \<open>
  \<^verbatim>\<open>src.find(sub, i)\<close>: the lowest position \<open>\<ge> i\<close> at which \<open>sub\<close> occurs, \<open>None\<close> for
  Python's \<open>-1\<close>.
\<close>

function str_find :: "string \<Rightarrow> string \<Rightarrow> nat \<Rightarrow> nat option" where
  "str_find s sub i =
     (if i + length sub \<le> length s then
        (if take (length sub) (drop i s) = sub then Some i else str_find s sub (i + 1))
      else None)"
  by pat_completeness auto

termination
  by (relation "measure (\<lambda>(s, sub, i). length s + 1 - i)") auto

declare scan_until.simps [simp del] skip_block.simps [simp del]
  skip_quoted.simps [simp del] str_find.simps [simp del]

text \<open>
  The main loop \<^verbatim>\<open>while i < n\<close> over the state \<open>(i, out)\<close>, with the branches in the
  order of the source. The two \<^verbatim>\<open>break\<close> statements of the raw-string branch return
  the working copy at once.
\<close>

function mask_loop :: "string \<Rightarrow> nat \<Rightarrow> string \<Rightarrow> string" where
  "mask_loop src i out =
     (let n = length src in
      if i < n then
        (let c = src ! i in
         if c = CHR ''/'' \<and> i + 1 < n \<and> src ! (i + 1) = CHR ''/'' then
           (let j = i; i' = scan_until src (CHR 0x0A) (i + 2)
            in mask_loop src i' (put_spaces out j i'))
         else if c = CHR ''/'' \<and> i + 1 < n \<and> src ! (i + 1) = CHR ''*'' then
           (let j = i; i' = min n (skip_block src (i + 2) + 2)
            in mask_loop src i' (put_spaces out j i'))
         else if c = CHR 0x22 then
           (let j = i; i' = skip_quoted src (CHR 0x22) (i + 1)
            in mask_loop src i' (put_spaces out j i'))
         else if c = CHR 0x27 then
           (let j = i; i' = skip_quoted src (CHR 0x27) (i + 1)
            in mask_loop src i' (put_spaces out j i'))
         else if c = CHR ''R'' \<and> i + 1 < n \<and> src ! (i + 1) = CHR 0x22 then
           (let j = i; delim_start = i + 2; i1 = scan_until src (CHR ''('') (i + 2)
            in if i1 \<ge> n then put_spaces out j n
               else
                 (let delim = take (i1 - delim_start) (drop delim_start src);
                      i2 = i1 + 1;
                      close_seq = [CHR '')''] @ delim @ [CHR 0x22]
                  in case str_find src close_seq i2 of
                       None \<Rightarrow> put_spaces out j n
                     | Some close_pos \<Rightarrow>
                         (let i3 = close_pos + length close_seq
                          in mask_loop src i3 (put_spaces out j i3))))
         else mask_loop src (i + 1) out)
      else out)"
  by pat_completeness auto

termination
proof -
  have scan_ge: "i \<le> scan_until src c i" for src c i
  proof (induction src c i rule: scan_until.induct)
    case (1 src c i)
    then show ?case by (subst scan_until.simps) (auto simp: Suc_leD)
  qed
  have block_ge: "i \<le> skip_block src i" for src i
  proof (induction src i rule: skip_block.induct)
    case (1 src i)
    then show ?case by (subst skip_block.simps) (auto simp: Suc_leD)
  qed
  have quoted_ge: "i \<le> skip_quoted src q i" for src q i
  proof (induction src q i rule: skip_quoted.induct)
    case (1 src q i)
    show ?case
    proof (cases "i < length src")
      case False
      then show ?thesis by (subst skip_quoted.simps) simp
    next
      case lt: True
      show ?thesis
      proof (cases "src ! i = CHR 0x5C \<and> i + 1 < length src")
        case True
        with lt 1(1) have "i + 2 \<le> skip_quoted src q (i + 2)" by simp
        with lt True show ?thesis by (subst skip_quoted.simps) simp
      next
        case esc: False
        show ?thesis
        proof (cases "src ! i = q")
          case True
          with lt esc show ?thesis by (subst skip_quoted.simps) auto
        next
          case False
          with lt esc 1(2) have "i + 1 \<le> skip_quoted src q (i + 1)" by simp
          with lt esc False show ?thesis by (subst skip_quoted.simps) auto
        qed
      qed
    qed
  qed
  have find_ge: "str_find s sub i = Some p \<Longrightarrow> i \<le> p" for s sub i p
  proof (induction s sub i rule: str_find.induct)
    case (1 s sub i)
    then show ?case by (subst (asm) str_find.simps) (auto simp: Suc_leD split: if_splits)
  qed
  show ?thesis
  proof (relation "measure (\<lambda>(src, i, out). length src - i)", goal_cases)
    case 1
    show ?case by simp
  next
    case (2 src i out n c j i')
    then have "i + 1 < length src" "i + 2 \<le> i'"
      using scan_ge [of "i + 2" src "CHR 0x0A"] by simp_all
    then have "length src - i' < length src - i" by linarith
    then show ?case by simp
  next
    case (3 src i out n c j i')
    then have "i + 1 < length src" "i' = min (length src) (skip_block src (i + 2) + 2)"
      by simp_all
    then have "length src - i' < length src - i"
      using block_ge [of "i + 2" src] by linarith
    then show ?case by simp
  next
    case (4 src i out n c j i')
    then have "i < length src" "i + 1 \<le> i'"
      using quoted_ge [of "i + 1" src "CHR 0x22"] by simp_all
    then have "length src - i' < length src - i" by linarith
    then show ?case by simp
  next
    case (5 src i out n c j i')
    then have "i < length src" "i + 1 \<le> i'"
      using quoted_ge [of "i + 1" src "CHR 0x27"] by simp_all
    then have "length src - i' < length src - i" by linarith
    then show ?case by simp
  next
    case (6 src i out n c j delim_start i1 delim i2 close_seq close_pos i3)
    then have "i < length src" "i + 2 \<le> i1" "i2 = i1 + 1" "i3 = close_pos + length close_seq"
      using scan_ge [of "i + 2" src "CHR ''(''"] by simp_all
    moreover have "i2 \<le> close_pos"
      using 6 by (intro find_ge [of src close_seq i2 close_pos]) simp
    ultimately have "length src - i3 < length src - i" by linarith
    then show ?case by simp
  next
    case (7 src i out n c)
    then show ?case by simp
  qed
qed

declare mask_loop.simps [simp del]

definition mask_cpp_comments_and_strings :: "string \<Rightarrow> string" where
  "mask_cpp_comments_and_strings src = mask_loop src 0 src"

subsection \<open>One step of the loop\<close>

text \<open>
  For the proofs the branches are summarised: \<open>mask_region src i\<close> is \<open>None\<close> when no
  comment or literal starts at \<open>i\<close>, and otherwise the end \<open>e\<close> of the region
  \<open>[i, e)\<close> that is blanked, with a flag telling whether the loop stops there.
\<close>

definition mask_region :: "string \<Rightarrow> nat \<Rightarrow> (nat \<times> bool) option" where
  "mask_region src i =
     (let n = length src; c = src ! i in
      if c = CHR ''/'' \<and> i + 1 < n \<and> src ! (i + 1) = CHR ''/'' then
        Some (scan_until src (CHR 0x0A) (i + 2), False)
      else if c = CHR ''/'' \<and> i + 1 < n \<and> src ! (i + 1) = CHR ''*'' then
        Some (min n (skip_block src (i + 2) + 2), False)
      else if c = CHR 0x22 then Some (skip_quoted src (CHR 0x22) (i + 1), False)
      else if c = CHR 0x27 then Some (skip_quoted src (CHR 0x27) (i + 1), False)
      else if c = CHR ''R'' \<and> i + 1 < n \<and> src ! (i + 1) = CHR 0x22 then
        (let i1 = scan_until src (CHR ''('') (i + 2);
             close_seq = [CHR '')''] @ take (i1 - (i + 2)) (drop (i + 2) src) @ [CHR 0x22]
         in if i1 \<ge> n then Some (n, True)
            else (case str_find src close_seq (i1 + 1) of
                    None \<Rightarrow> Some (n, True)
                  | Some close_pos \<Rightarrow> Some (close_pos + length close_seq, False)))
      else None)"

subsection \<open>Input and output of the masker\<close>

text \<open>
  \<open>masked_of src out\<close>: \<open>out\<close> has the length of \<open>src\<close> and differs from it only where
  a character other than a newline has been replaced by a space.
\<close>

definition masked_of :: "string \<Rightarrow> string \<Rightarrow> bool" where
  "masked_of src out \<longleftrightarrow>
     length out = length src \<and>
     (\<forall>p<length src. out ! p = src ! p \<or> (src ! p \<noteq> CHR 0x0A \<and> out ! p = CHR '' ''))"

text \<open>
  A text is clean when the masker finds nothing to blank in it: it contains no quote
  character and no slash followed by a slash or a star. The output of the masker is
  clean, and the masker leaves a clean text as it is.
\<close>

definition mask_clean :: "string \<Rightarrow> bool" where
  "mask_clean t \<longleftrightarrow>
     (\<forall>p<length t. t ! p \<noteq> CHR 0x22 \<and> t ! p \<noteq> CHR 0x27 \<and>
        (t ! p = CHR ''/'' \<longrightarrow> p + 1 < length t \<longrightarrow>
           t ! (p + 1) \<noteq> CHR ''/'' \<and> t ! (p + 1) \<noteq> CHR ''*''))"

text \<open>
  The invariant of the main loop at index \<open>i\<close>: from \<open>i\<close> on the working copy is still
  the input; before \<open>i\<close> it holds no quote character, and a slash only where the input
  has no slash or star behind it; everywhere it holds the input's character, a space
  or a newline.
\<close>

definition mask_inv :: "string \<Rightarrow> nat \<Rightarrow> string \<Rightarrow> bool" where
  "mask_inv src i out \<longleftrightarrow>
     length out = length src \<and>
     (\<forall>p<length src.
        (i \<le> p \<longrightarrow> out ! p = src ! p) \<and>
        (p < i \<longrightarrow> out ! p \<noteq> CHR 0x22 \<and> out ! p \<noteq> CHR 0x27 \<and>
           (out ! p = CHR ''/'' \<longrightarrow> p + 1 < length src \<longrightarrow>
              src ! (p + 1) \<noteq> CHR ''/'' \<and> src ! (p + 1) \<noteq> CHR ''*'')) \<and>
        (out ! p = src ! p \<or> out ! p = CHR '' '' \<or> out ! p = CHR 0x0A))"

section \<open>Tokenizer (\<^verbatim>\<open>IDENT_RE\<close> and \<^verbatim>\<open>iter_identifiers_with_pos\<close>, Search.py 31 and 272-278)\<close>

text \<open>
  The pattern is \<^verbatim>\<open>\b[_A-Za-z][_A-Za-z0-9]*\b\<close>. Its character classes are ASCII:
  \<open>is_ident_start\<close> is \<^verbatim>\<open>[_A-Za-z]\<close> and \<open>is_ident_char\<close> is \<^verbatim>\<open>[_A-Za-z0-9]\<close>.
\<close>

definition is_ident_start :: "char \<Rightarrow> bool" where
  "is_ident_start c \<longleftrightarrow>
     c = CHR ''_'' \<or> (65 \<le> (of_char c :: nat) \<and> (of_char c :: nat) \<le> 90)
       \<or> (97 \<le> (of_char c :: nat) \<and> (of_char c :: nat) \<le> 122)"

definition is_ident_char :: "char \<Rightarrow> bool" where
  "is_ident_char c \<longleftrightarrow>
     is_ident_start c \<or> (48 \<le> (of_char c :: nat) \<and> (of_char c :: nat) \<le> 57)"

text \<open>
  \<^verbatim>\<open>\b\<close> matches between a word character and a character that is not one (or an end
  of the line). For a Python \<^verbatim>\<open>str\<close> pattern the word characters are \<^verbatim>\<open>[A-Za-z0-9_]\<close>
  in ASCII and, outside ASCII, whatever the Unicode database of the interpreter calls
  alphanumeric. That table is not part of the repository: it is the parameter \<open>uw\<close>,
  consulted only for characters outside ASCII.
\<close>

definition is_word :: "(char \<Rightarrow> bool) \<Rightarrow> char \<Rightarrow> bool" where
  "is_word uw c \<longleftrightarrow> (if (of_char c :: nat) < 128 then is_ident_char c else uw c)"

definition word_at :: "(char \<Rightarrow> bool) \<Rightarrow> string \<Rightarrow> nat \<Rightarrow> bool" where
  "word_at uw line p \<longleftrightarrow> p < length line \<and> is_word uw (line ! p)"

definition boundary :: "(char \<Rightarrow> bool) \<Rightarrow> string \<Rightarrow> nat \<Rightarrow> bool" where
  "boundary uw line p \<longleftrightarrow> (0 < p \<and> word_at uw line (p - 1)) \<noteq> word_at uw line p"

text \<open>
  An attempt to match at position \<open>p\<close>: \<^verbatim>\<open>\b\<close> at \<open>p\<close>, one character of
  \<^verbatim>\<open>[_A-Za-z]\<close>, then the longest run of \<^verbatim>\<open>[_A-Za-z0-9]\<close>, given back one character
  at a time until \<^verbatim>\<open>\b\<close> matches at the end (the engine's backtracking). The result is
  the end of the match.
\<close>

definition match_at :: "(char \<Rightarrow> bool) \<Rightarrow> string \<Rightarrow> nat \<Rightarrow> nat option" where
  "match_at uw line p =
     (if boundary uw line p \<and> p < length line \<and> is_ident_start (line ! p) then
        (let e = p + 1 + length (takeWhile is_ident_char (drop (p + 1) line))
         in find (boundary uw line) (rev [p + 1..<e + 1]))
      else None)"

text \<open>
  \<^verbatim>\<open>IDENT_RE.finditer(line)\<close>: the leftmost match from the current position, then the
  search goes on at the end of that match (no match of this pattern is empty). Each
  match is returned with its text and its 0-based start.
\<close>

function finditer_from :: "(char \<Rightarrow> bool) \<Rightarrow> string \<Rightarrow> nat \<Rightarrow> (string \<times> nat) list" where
  "finditer_from uw line p =
     (if p \<le> length line then
        (case match_at uw line p of
           Some e \<Rightarrow> (take (e - p) (drop p line), p) # finditer_from uw line e
         | None \<Rightarrow> finditer_from uw line (p + 1))
      else [])"
  by pat_completeness auto

termination
proof (relation "measure (\<lambda>(uw, line, p). length line + 1 - p)", goal_cases)
  case 1
  show ?case by simp
next
  case (2 uw line p)
  then show ?case by simp
next
  case (3 uw line p e)
  have "x \<in> set xs" if "find P xs = Some x" for P and xs :: "nat list" and x
    using that by (induction xs) (auto split: if_splits)
  then have "p < e" using 3
    by (fastforce simp: match_at_def Let_def split: if_splits)
  with 3 show ?case by simp
qed

declare finditer_from.simps [simp del]

text \<open>
  \<^verbatim>\<open>str.splitlines()\<close>: the line boundaries are \<^verbatim>\<open>\n\<close>, \<^verbatim>\<open>\r\<close>, \<^verbatim>\<open>\r\n\<close> (one
  boundary), \<^verbatim>\<open>\v\<close>, \<^verbatim>\<open>\f\<close>, \<^verbatim>\<open>\x1c\<close>, \<^verbatim>\<open>\x1d\<close>, \<^verbatim>\<open>\x1e\<close> and \<^verbatim>\<open>\x85\<close>
  (among the characters a \<^typ>\<open>char\<close> can hold); the boundaries are not part of the
  lines, and a text that ends in a boundary has no empty last line.
\<close>

definition is_linebreak :: "char \<Rightarrow> bool" where
  "is_linebreak c \<longleftrightarrow>
     c \<in> {CHR 0x0A, CHR 0x0D, CHR 0x0B, CHR 0x0C, CHR 0x1C, CHR 0x1D, CHR 0x1E, CHR 0x85}"

fun splitlines_aux :: "string \<Rightarrow> string \<Rightarrow> string list" where
  "splitlines_aux cur [] = (if cur = [] then [] else [cur])"
| "splitlines_aux cur (c # cs) =
     (if c = CHR 0x0D \<and> cs \<noteq> [] \<and> hd cs = CHR 0x0A then cur # splitlines_aux [] (tl cs)
      else if is_linebreak c then cur # splitlines_aux [] cs
      else splitlines_aux (cur @ [c]) cs)"

definition splitlines :: "string \<Rightarrow> string list" where
  "splitlines text = splitlines_aux [] text"

text \<open>
  The generator, as the list of what it yields:
  \<^verbatim>\<open>for lineno, line in enumerate(text.splitlines(), start=1):\<close>
  \<^verbatim>\<open>for m in IDENT_RE.finditer(line): yield m.group(0), lineno, m.start() + 1\<close>.
\<close>

definition iter_identifiers_with_pos ::
  "(char \<Rightarrow> bool) \<Rightarrow> string \<Rightarrow> (string \<times> nat \<times> nat) list" where
  "iter_identifiers_with_pos uw text =
     concat (map (\<lambda>(lineno, line).
                    map (\<lambda>(tok, start). (tok, lineno, start + 1)) (finditer_from uw line 0))
                 (zip [1..<length (splitlines text) + 1] (splitlines text)))"

subsection \<open>The grammar of the specification\<close>

text \<open>
  The specification describes the tokens as the maximal runs whose first character is a
  letter or underscore and whose other characters are letters, digits or underscores. Read
  from left to right: the first letter or underscore starts a run, which extends over
  every following letter, digit and underscore; the search goes on behind it.
\<close>

function spec_tokens_from :: "string \<Rightarrow> nat \<Rightarrow> (string \<times> nat) list" where
  "spec_tokens_from line p =
     (if p < length line then
        (if is_ident_start (line ! p) then
           (let e = p + 1 + length (takeWhile is_ident_char (drop (p + 1) line))
            in (take (e - p) (drop p line), p) # spec_tokens_from line e)
         else spec_tokens_from line (p + 1))
      else [])"
  by pat_completeness auto

termination
  by (relation "measure (\<lambda>(line, p). length line - p)") auto

declare spec_tokens_from.simps [simp del]

definition spec_identifiers :: "string \<Rightarrow> (string \<times> nat \<times> nat) list" where
  "spec_identifiers text =
     concat (map (\<lambda>(lineno, line).
                    map (\<lambda>(tok, start). (tok, lineno, start + 1)) (spec_tokens_from line 0))
                 (zip [1..<length (splitlines text) + 1] (splitlines text)))"

subsection \<open>What the pattern matches\<close>

text \<open>
  The pattern looks at whole runs of word characters: \<open>run_end uw line p\<close> is the end of
  the run that starts at \<open>p\<close>. A run is a token when it starts with a letter or underscore
  and holds letters, digits and underscores only; otherwise the whole run gives no token.
\<close>

definition run_end :: "(char \<Rightarrow> bool) \<Rightarrow> string \<Rightarrow> nat \<Rightarrow> nat" where
  "run_end uw line p = p + length (takeWhile (is_word uw) (drop p line))"

function word_run_tokens_from ::
  "(char \<Rightarrow> bool) \<Rightarrow> string \<Rightarrow> nat \<Rightarrow> (string \<times> nat) list" where
  "word_run_tokens_from uw line p =
     (if p < length line then
        (if is_word uw (line ! p) then
           (let e = run_end uw line p; run = take (e - p) (drop p line)
            in (if is_ident_start (line ! p) \<and> list_all is_ident_char run then [(run, p)] else [])
               @ word_run_tokens_from uw line e)
         else word_run_tokens_from uw line (p + 1))
      else [])"
  by pat_completeness auto

termination
proof (relation "measure (\<lambda>(uw, line, p). length line - p)", goal_cases)
  case 1
  show ?case by simp
next
  case (2 uw line p e run)
  then have "p < e" by (simp add: run_end_def Cons_nth_drop_Suc [symmetric])
  with 2 show ?case by simp
next
  case (3 uw line p)
  then show ?case by simp
qed

declare word_run_tokens_from.simps [simp del]

definition word_run_identifiers ::
  "(char \<Rightarrow> bool) \<Rightarrow> string \<Rightarrow> (string \<times> nat \<times> nat) list" where
  "word_run_identifiers uw text =
     concat (map (\<lambda>(lineno, line).
                    map (\<lambda>(tok, start). (tok, lineno, start + 1)) (word_run_tokens_from uw line 0))
                 (zip [1..<length (splitlines text) + 1] (splitlines text)))"

section \<open>Data structures (Search.py 244-265)\<close>

text \<open>
  The three dataclasses. Line and column numbers are positions in a text, hence
  \<^typ>\<open>nat\<close>; counts and their difference are Python integers, \<^typ>\<open>int\<close>. The field
  \<^verbatim>\<open>path\<close> of \<^verbatim>\<open>CompareFileRow\<close> is called \<open>row_path\<close>, since \<open>path\<close> is already the
  field of \<^verbatim>\<open>Occurrence\<close>.
\<close>

record Occurrence =
  path :: string
  line :: nat
  col :: nat

record NearTokenAggregate =
  token :: string
  count :: int
  locs :: "Occurrence list"

record CompareFileRow =
  row_path :: string
  count_a :: int
  count_b :: int
  diff :: int
  locs_a :: "Occurrence list"
  locs_b :: "Occurrence list"

text \<open>
  A Python \<^verbatim>\<open>dict\<close> is an association list in insertion order: \<open>map_of\<close> is
  \<^verbatim>\<open>get\<close> and \<open>AList.update\<close> is the assignment \<^verbatim>\<open>d[k] = v\<close>, which replaces the value
  of a key in place and appends a new key at the end. The result of the near scan is
  \<^verbatim>\<open>Dict[int, Dict[str, NearTokenAggregate]]\<close>.
\<close>

type_synonym near_bucket = "(string \<times> NearTokenAggregate) list"

type_synonym near_result = "(int \<times> near_bucket) list"

section \<open>The near scan of one file (\<^verbatim>\<open>scan_file_near\<close>, Search.py 289-343)\<close>

text \<open>
  \<^verbatim>\<open>str.lower()\<close>. Every token is made of ASCII letters, digits and underscores, where
  lowering a string lowers the letters \<^verbatim>\<open>A-Z\<close> one by one. The case mapping of
  characters outside ASCII (in a needle or an ignored token) is not modelled, they are
  left as they are: such a character never equals a character of a token, lowered or
  not, so the results of the scans do not depend on it.
\<close>

definition lower_char :: "char \<Rightarrow> char" where
  "lower_char c =
     (if 65 \<le> (of_char c :: nat) \<and> (of_char c :: nat) \<le> 90
      then char_of ((of_char c :: nat) + 32) else c)"

definition lower :: "string \<Rightarrow> string" where
  "lower s = map lower_char s"

text \<open>
  The last lines of the loop body, for a token at distance \<open>d \<le> max_dist\<close>:
  \<^verbatim>\<open>bucket = out.setdefault(d, {})\<close>, \<^verbatim>\<open>agg = bucket.get(tok)\<close> (a fresh aggregate with
  count 0 when there is none), \<^verbatim>\<open>agg.count += 1\<close>, and the occurrence is appended when
  \<^verbatim>\<open>max_locs_per_token == 0 or len(agg.locs) < max_locs_per_token\<close>. The source mutates the
  aggregate inside the dictionaries; the model writes the new aggregate back under the
  same keys.
\<close>

definition near_record ::
  "string \<Rightarrow> int \<Rightarrow> int \<Rightarrow> string \<Rightarrow> nat \<Rightarrow> nat \<Rightarrow> near_result \<Rightarrow> near_result" where
  "near_record rp max_locs_per_token d tok ln cl out =
     (let bucket = (case map_of out d of None \<Rightarrow> [] | Some b \<Rightarrow> b);
          agg = (case map_of bucket tok of
                   None \<Rightarrow> \<lparr>token = tok, count = 0, locs = []\<rparr>
                 | Some a \<Rightarrow> a);
          agg1 = agg\<lparr>count := count agg + 1\<rparr>;
          agg2 = (if max_locs_per_token = 0 \<or> int (length (locs agg1)) < max_locs_per_token
                  then agg1\<lparr>locs := locs agg1 @ [\<lparr>path = rp, line = ln, col = cl\<rparr>]\<rparr>
                  else agg1)
      in AList.update d (AList.update tok agg2 bucket) out)"

text \<open>
  The body of the loop \<^verbatim>\<open>for tok, line, col in iter_identifiers_with_pos(text)\<close>, with
  its three \<^verbatim>\<open>continue\<close> statements in the order of the source.
\<close>

definition near_token ::
  "string \<Rightarrow> string \<Rightarrow> int \<Rightarrow> bool \<Rightarrow> bool \<Rightarrow> string set \<Rightarrow> int \<Rightarrow>
     string \<times> nat \<times> nat \<Rightarrow> near_result \<Rightarrow> near_result" where
  "near_token rp ncmp max_dist case_insensitive same_first_char ignore_set max_locs_per_token t out =
     (case t of (tok, ln, cl) \<Rightarrow>
        (let tcmp = (if case_insensitive then lower tok else tok) in
         if tcmp \<in> ignore_set then out
         else if same_first_char \<and> (tcmp = [] \<or> ncmp = [] \<or> hd tcmp \<noteq> hd ncmp) then out
         else if \<bar>int (length tcmp) - int (length ncmp)\<bar> > max_dist then out
         else (let d = bounded_levenshtein tcmp ncmp max_dist in
               if d \<le> max_dist then near_record rp max_locs_per_token d tok ln cl out
               else out)))"

text \<open>
  The function. Its arguments \<^verbatim>\<open>path\<close>, \<^verbatim>\<open>root\<close> and \<^verbatim>\<open>encoding\<close> reach the file
  system only through \<^verbatim>\<open>load_text(path, encoding)\<close> and \<^verbatim>\<open>relpath_str(path, root)\<close>:
  the model takes their results, \<open>loaded\<close> (\<open>None\<close> when \<^verbatim>\<open>load_text\<close> raises, which
  the \<^verbatim>\<open>try\<close> block turns into \<^verbatim>\<open>return {}\<close>) and the relative path \<open>rp\<close>. The flag
  \<^verbatim>\<open>mask\<close> is called \<open>mask_flag\<close>.
\<close>

definition scan_file_near ::
  "(char \<Rightarrow> bool) \<Rightarrow> string option \<Rightarrow> string \<Rightarrow> string \<Rightarrow> int \<Rightarrow> bool \<Rightarrow> bool \<Rightarrow>
     string list \<Rightarrow> int \<Rightarrow> bool \<Rightarrow> near_result" where
  "scan_file_near uw loaded rp needle max_dist case_insensitive same_first_char
       ignore_tokens max_locs_per_token mask_flag =
     (case loaded of
        None \<Rightarrow> []
      | Some text0 \<Rightarrow>
          (let text = (if mask_flag then mask_cpp_comments_and_strings text0 else text0);
               ncmp = (if case_insensitive then lower needle else needle);
               ignore_set = set (map (\<lambda>t. if case_insensitive then lower t else t) ignore_tokens)
           in fold (near_token rp ncmp max_dist case_insensitive same_first_char ignore_set
                      max_locs_per_token)
                (iter_identifiers_with_pos uw text) []))"

section \<open>The compare scan of one file (\<^verbatim>\<open>scan_file_compare\<close>, Search.py 350-389)\<close>

text \<open>
  The body of the token loop over the state \<^verbatim>\<open>(ca, cb, la, lb)\<close>: an \<^verbatim>\<open>if\<close> for the
  first needle, an \<^verbatim>\<open>elif\<close> for the second.
\<close>

definition compare_token ::
  "string \<Rightarrow> string \<Rightarrow> string \<Rightarrow> bool \<Rightarrow> int \<Rightarrow> string \<times> nat \<times> nat \<Rightarrow>
     int \<times> int \<times> Occurrence list \<times> Occurrence list \<Rightarrow>
     int \<times> int \<times> Occurrence list \<times> Occurrence list" where
  "compare_token rp acmp bcmp case_insensitive locs_per_file t st =
     (case (t, st) of ((tok, ln, cl), (ca, cb, la, lb)) \<Rightarrow>
        (let tcmp = (if case_insensitive then lower tok else tok) in
         if tcmp = acmp then
           (ca + 1, cb,
            (if locs_per_file = 0 \<or> int (length la) < locs_per_file
             then la @ [\<lparr>path = rp, line = ln, col = cl\<rparr>] else la),
            lb)
         else if tcmp = bcmp then
           (ca, cb + 1, la,
            (if locs_per_file = 0 \<or> int (length lb) < locs_per_file
             then lb @ [\<lparr>path = rp, line = ln, col = cl\<rparr>] else lb))
         else (ca, cb, la, lb)))"

definition scan_file_compare ::
  "(char \<Rightarrow> bool) \<Rightarrow> string option \<Rightarrow> string \<Rightarrow> string \<Rightarrow> string \<Rightarrow> bool \<Rightarrow> int \<Rightarrow> bool \<Rightarrow>
     CompareFileRow" where
  "scan_file_compare uw loaded rp a b case_insensitive locs_per_file mask_flag =
     (case loaded of
        None \<Rightarrow> \<lparr>row_path = rp, count_a = 0, count_b = 0, diff = 0, locs_a = [], locs_b = []\<rparr>
      | Some text0 \<Rightarrow>
          (let text = (if mask_flag then mask_cpp_comments_and_strings text0 else text0);
               acmp = (if case_insensitive then lower a else a);
               bcmp = (if case_insensitive then lower b else b)
           in case fold (compare_token rp acmp bcmp case_insensitive locs_per_file)
                     (iter_identifiers_with_pos uw text) (0, 0, [], []) of
                (ca, cb, la, lb) \<Rightarrow>
                  \<lparr>row_path = rp, count_a = ca, count_b = cb, diff = ca - cb,
                   locs_a = la, locs_b = lb\<rparr>))"

section \<open>The expectation (\<^verbatim>\<open>check_expectation\<close>, Search.py 539-549)\<close>

text \<open>
  \<^verbatim>\<open>ratio\<close> is a Python \<^verbatim>\<open>float\<close>. The last branch computes
  \<^verbatim>\<open>abs(row.count_a - ratio * row.count_b) <= tolerance\<close> in the floating-point arithmetic
  of the interpreter: a float times an integer, an integer minus a float, the absolute
  value and the comparison of a float with an integer. These four operations are not
  code of the repository; they are parameters of the model, over any type \<open>'f\<close> of
  floats. The other three branches are integer arithmetic.
\<close>

record 'f float_ops =
  float_mul_int :: "'f \<Rightarrow> int \<Rightarrow> 'f"
  int_sub_float :: "int \<Rightarrow> 'f \<Rightarrow> 'f"
  float_abs :: "'f \<Rightarrow> 'f"
  float_le_int :: "'f \<Rightarrow> int \<Rightarrow> bool"

text \<open>
  The expectation is a string; every string other than the first three reaches the
  ratio branch, as in the source.
\<close>

definition check_expectation ::
  "'f float_ops \<Rightarrow> CompareFileRow \<Rightarrow> string \<Rightarrow> 'f \<Rightarrow> int \<Rightarrow> bool" where
  "check_expectation fl row expect ratio tolerance =
     (if expect = ''equal'' then \<bar>diff row\<bar> \<le> tolerance
      else if expect = ''a>=b'' then diff row \<ge> - tolerance
      else if expect = ''b>=a'' then diff row \<le> tolerance
      else (let target = float_mul_int fl ratio (count_b row)
            in float_le_int fl (float_abs fl (int_sub_float fl (count_a row) target)) tolerance))"

section \<open>Aggregation in near mode (\<^verbatim>\<open>cmd_near\<close>, Search.py 581-615)\<close>

text \<open>
  The merge loops of \<^verbatim>\<open>cmd_near\<close>; the sequential branch and the pool branch run the
  same code over the per-file results, taken in the order of the file list
  (\<^verbatim>\<open>Pool.starmap\<close> returns its results in the order of its arguments). The innermost
  body merges one aggregate \<open>a\<close> of a file into the bucket.
\<close>

definition near_merge_token :: "int \<Rightarrow> string \<times> NearTokenAggregate \<Rightarrow> near_bucket \<Rightarrow> near_bucket" where
  "near_merge_token max_locs_per_token ta bucket =
     (case ta of (tok, a) \<Rightarrow>
        (case map_of bucket tok of
           None \<Rightarrow> AList.update tok \<lparr>token = tok, count = count a, locs = locs a\<rparr> bucket
         | Some cur \<Rightarrow>
             (let cur1 = cur\<lparr>count := count cur + count a\<rparr>;
                  cur2 = (if max_locs_per_token = 0 then cur1\<lparr>locs := locs cur1 @ locs a\<rparr>
                          else (let remain = max_locs_per_token - int (length (locs cur1)) in
                                if remain > 0
                                then cur1\<lparr>locs := locs cur1 @ take (nat remain) (locs a)\<rparr>
                                else cur1))
              in AList.update tok cur2 bucket)))"

text \<open>
  \<^verbatim>\<open>for d, token_map in partial.items(): bucket = agg.setdefault(d, {}); ...\<close>
\<close>

definition near_merge_bucket :: "int \<Rightarrow> int \<times> near_bucket \<Rightarrow> near_result \<Rightarrow> near_result" where
  "near_merge_bucket max_locs_per_token dm agg =
     (case dm of (d, token_map) \<Rightarrow>
        (let bucket = (case map_of agg d of None \<Rightarrow> [] | Some b \<Rightarrow> b)
         in AList.update d (fold (near_merge_token max_locs_per_token) token_map bucket) agg))"

definition near_merge_partial :: "int \<Rightarrow> near_result \<Rightarrow> near_result \<Rightarrow> near_result" where
  "near_merge_partial max_locs_per_token partial agg =
     fold (near_merge_bucket max_locs_per_token) partial agg"

text \<open>
  A file is a pair of its relative path and what \<^verbatim>\<open>load_text\<close> returns for it.
  \<open>cmd_near_partials\<close> is the list of the per-file results and \<open>cmd_near_agg\<close> the
  dictionary \<^verbatim>\<open>agg\<close> after the merge loop.
\<close>

definition cmd_near_partials ::
  "(char \<Rightarrow> bool) \<Rightarrow> (string \<times> string option) list \<Rightarrow> string \<Rightarrow> int \<Rightarrow> bool \<Rightarrow> bool \<Rightarrow>
     string list \<Rightarrow> int \<Rightarrow> bool \<Rightarrow> near_result list" where
  "cmd_near_partials uw files needle max_dist case_insensitive same_first_char
       ignore_token max_locs_per_token mask_flag =
     map (\<lambda>(rp, loaded). scan_file_near uw loaded rp needle max_dist case_insensitive
            same_first_char ignore_token max_locs_per_token mask_flag) files"

definition cmd_near_agg ::
  "(char \<Rightarrow> bool) \<Rightarrow> (string \<times> string option) list \<Rightarrow> string \<Rightarrow> int \<Rightarrow> bool \<Rightarrow> bool \<Rightarrow>
     string list \<Rightarrow> int \<Rightarrow> bool \<Rightarrow> near_result" where
  "cmd_near_agg uw files needle max_dist case_insensitive same_first_char
       ignore_token max_locs_per_token mask_flag =
     fold (near_merge_partial max_locs_per_token)
       (cmd_near_partials uw files needle max_dist case_insensitive same_first_char
          ignore_token max_locs_per_token mask_flag) []"

section \<open>The compare command (\<^verbatim>\<open>cmd_compare\<close>, Search.py 672-774)\<close>

text \<open>
  What a run of \<^verbatim>\<open>cmd_compare\<close> that completes computes: the rows, the total row, the
  two checks and the value it returns, the exit status of the process. Printing, sorting
  for the printout and the JSON and CSV exports do not change any of these and are left
  out.
\<close>

record compare_run =
  run_rows :: "CompareFileRow list"
  run_overall_row :: CompareFileRow
  run_overall_ok :: bool
  run_mismatches :: "CompareFileRow list"
  run_status :: int

definition cmd_compare ::
  "'f float_ops \<Rightarrow> (char \<Rightarrow> bool) \<Rightarrow> (string \<times> string option) list \<Rightarrow> string \<Rightarrow> string \<Rightarrow>
     bool \<Rightarrow> string \<Rightarrow> 'f \<Rightarrow> int \<Rightarrow> int \<Rightarrow> bool \<Rightarrow> compare_run" where
  "cmd_compare fl uw files a b case_insensitive expect ratio tolerance locs_per_file mask_flag =
     (let rows = map (\<lambda>(rp, loaded).
                   scan_file_compare uw loaded rp a b case_insensitive locs_per_file mask_flag) files;
          total_a = sum_list (map count_a rows);
          total_b = sum_list (map count_b rows);
          overall_row = \<lparr>row_path = ''<TOTAL>'', count_a = total_a, count_b = total_b,
                          diff = total_a - total_b, locs_a = [], locs_b = []\<rparr>;
          overall_ok = check_expectation fl overall_row expect ratio tolerance;
          mismatches = filter (\<lambda>r. \<not> check_expectation fl r expect ratio tolerance) rows
      in \<lparr>run_rows = rows, run_overall_row = overall_row, run_overall_ok = overall_ok,
          run_mismatches = mismatches, run_status = 0\<rparr>)"

section \<open>Notions used in the properties of the scans\<close>

text \<open>
  \<open>near_lookup r d tok\<close> is the aggregate stored for \<open>tok\<close> in the bucket of distance \<open>d\<close>,
  \<^verbatim>\<open>r.get(d, {}).get(tok)\<close>; \<open>near_count\<close> and \<open>near_locs\<close> read its count and its
  occurrence list (0 and the empty list when there is no entry).
\<close>

definition near_lookup :: "near_result \<Rightarrow> int \<Rightarrow> string \<Rightarrow> NearTokenAggregate option" where
  "near_lookup r d tok = (case map_of r d of None \<Rightarrow> None | Some b \<Rightarrow> map_of b tok)"

definition near_count :: "near_result \<Rightarrow> int \<Rightarrow> string \<Rightarrow> int" where
  "near_count r d tok = (case near_lookup r d tok of None \<Rightarrow> 0 | Some a \<Rightarrow> count a)"

definition near_locs :: "near_result \<Rightarrow> int \<Rightarrow> string \<Rightarrow> Occurrence list" where
  "near_locs r d tok = (case near_lookup r d tok of None \<Rightarrow> [] | Some a \<Rightarrow> locs a)"

definition cap_take :: "int \<Rightarrow> 'a list \<Rightarrow> 'a list" where
  "cap_take cap xs = (if cap = 0 then xs else take (nat cap) xs)"

definition add_occ :: "int \<Rightarrow> Occurrence \<Rightarrow> NearTokenAggregate \<Rightarrow> NearTokenAggregate" where
  "add_occ cap oc a =
     (if cap = 0 \<or> int (length (locs a)) < cap
      then a\<lparr>count := count a + 1, locs := locs a @ [oc]\<rparr>
      else a\<lparr>count := count a + 1\<rparr>)"

definition near_dist ::
  "string \<Rightarrow> int \<Rightarrow> bool \<Rightarrow> bool \<Rightarrow> string set \<Rightarrow> string \<Rightarrow> int option" where
  "near_dist ncmp max_dist case_insensitive same_first_char ignore_set tok =
     (let tcmp = (if case_insensitive then lower tok else tok) in
      if tcmp \<in> ignore_set then None
      else if same_first_char \<and> (tcmp = [] \<or> ncmp = [] \<or> hd tcmp \<noteq> hd ncmp) then None
      else if \<bar>int (length tcmp) - int (length ncmp)\<bar> > max_dist then None
      else if bounded_levenshtein tcmp ncmp max_dist \<le> max_dist
           then Some (bounded_levenshtein tcmp ncmp max_dist)
      else None)"

fun fold_occ ::
  "int \<Rightarrow> string \<Rightarrow> Occurrence list \<Rightarrow> NearTokenAggregate option \<Rightarrow> NearTokenAggregate option" where
  "fold_occ cap tok [] x = x"
| "fold_occ cap tok (oc # ocs) x =
     fold_occ cap tok ocs
       (Some (add_occ cap oc (case x of None \<Rightarrow> \<lparr>token = tok, count = 0, locs = []\<rparr> | Some a \<Rightarrow> a)))"

definition near_hits ::
  "string \<Rightarrow> int \<Rightarrow> bool \<Rightarrow> bool \<Rightarrow> string set \<Rightarrow> int \<Rightarrow> string \<Rightarrow>
     (string \<times> nat \<times> nat) list \<Rightarrow> (string \<times> nat \<times> nat) list" where
  "near_hits ncmp max_dist ci sfc ign d tok toks =
     filter (\<lambda>t. fst t = tok \<and> near_dist ncmp max_dist ci sfc ign (fst t) = Some d) toks"

definition occ_of :: "string \<Rightarrow> string \<times> nat \<times> nat \<Rightarrow> Occurrence" where
  "occ_of rp t = \<lparr>path = rp, line = fst (snd t), col = snd (snd t)\<rparr>"

definition near_wf :: "near_result \<Rightarrow> bool" where
  "near_wf r \<longleftrightarrow>
     distinct (map fst r) \<and> (\<forall>d b. (d, b) \<in> set r \<longrightarrow> distinct (map fst b))"

definition near_combine ::
  "int \<Rightarrow> NearTokenAggregate option \<Rightarrow> string \<Rightarrow> NearTokenAggregate \<Rightarrow> NearTokenAggregate" where
  "near_combine cap x tok a =
     (case x of
        None \<Rightarrow> \<lparr>token = tok, count = count a, locs = locs a\<rparr>
      | Some cur \<Rightarrow>
          (let cur1 = cur\<lparr>count := count cur + count a\<rparr>
           in if cap = 0 then cur1\<lparr>locs := locs cur1 @ locs a\<rparr>
              else (let remain = cap - int (length (locs cur1)) in
                    if remain > 0 then cur1\<lparr>locs := locs cur1 @ take (nat remain) (locs a)\<rparr>
                    else cur1)))"

definition capped :: "int \<Rightarrow> 'a list \<Rightarrow> bool" where
  "capped cap xs \<longleftrightarrow> cap_take cap xs = xs"

text \<open>
  For concrete examples: the classification in which no character outside ASCII is a
  word character (the example texts are ASCII, so any other would do).
\<close>

definition ascii_only :: "char \<Rightarrow> bool" where
  "ascii_only c = False"

text \<open>
  For concrete examples: integers in the place of floats.
\<close>

definition int_ops :: "int float_ops" where
  "int_ops = \<lparr>float_mul_int = (*), int_sub_float = (-), float_abs = abs, float_le_int = (\<le>)\<rparr>"

section \<open>Correctness of the bounded edit distance\<close>

subsection \<open>Properties of the reference distance\<close>

lemma lev_Nil2: "trueLevenshtein xs [] = length xs"
  by (cases xs) simp_all

lemma lev_sym: "trueLevenshtein xs ys = trueLevenshtein ys xs"
proof (induction xs ys rule: trueLevenshtein.induct)
  case (1 ys)
  show ?case by (simp add: lev_Nil2)
next
  case (2 x xs)
  show ?case by simp
next
  case (3 x xs y ys)
  have "(x = y) = (y = x)" by auto
  with 3 show ?case by (simp add: min.commute)
qed

lemma lev_refl: "trueLevenshtein xs xs = 0"
  by (induction xs) simp_all

lemma lev_Cons1_le: "trueLevenshtein (x # xs) ys \<le> trueLevenshtein xs ys + 1"
  by (cases ys) (simp_all add: lev_Nil2)

lemma lev_Cons2_le: "trueLevenshtein xs (y # ys) \<le> trueLevenshtein xs ys + 1"
  by (cases xs) simp_all

lemma lev_Cons12_le:
  "trueLevenshtein (x # xs) (y # ys) \<le> trueLevenshtein xs ys + (if x = y then 0 else 1)"
  by simp

lemma min3_cases:
  fixes a b c :: nat
  shows "min (min a b) c = a \<or> min (min a b) c = b \<or> min (min a b) c = c"
  by linarith

lemma lev_Cons_cases:
  "trueLevenshtein (x # xs) (y # ys) = trueLevenshtein xs (y # ys) + 1
   \<or> trueLevenshtein (x # xs) (y # ys) = trueLevenshtein (x # xs) ys + 1
   \<or> trueLevenshtein (x # xs) (y # ys) = trueLevenshtein xs ys + (if x = y then 0 else 1)"
  unfolding trueLevenshtein.simps by (rule min3_cases)

lemma lev_ge_diff: "length ys - length xs \<le> trueLevenshtein xs ys"
  by (induction xs ys rule: trueLevenshtein.induct) auto

lemma lev_abs_diff:
  "\<bar>int (length xs) - int (length ys)\<bar> \<le> int (trueLevenshtein xs ys)"
  using lev_ge_diff [of ys xs] lev_ge_diff [of xs ys] lev_sym [of xs ys] by linarith

lemma lev_Nil_append_le:
  "trueLevenshtein xs' (ys @ ys') \<le> length ys + trueLevenshtein xs' ys'"
proof (induction ys)
  case Nil
  show ?case by simp
next
  case (Cons y ys)
  have "trueLevenshtein xs' (y # (ys @ ys')) \<le> trueLevenshtein xs' (ys @ ys') + 1"
    by (rule lev_Cons2_le)
  with Cons show ?case by simp
qed

lemma lev_append_Nil_le:
  "trueLevenshtein (xs @ xs') ys' \<le> length xs + trueLevenshtein xs' ys'"
  using lev_Nil_append_le [of ys' xs xs'] by (simp add: lev_sym [of _ ys'])

lemma lev_append_le:
  "trueLevenshtein (xs @ xs') (ys @ ys') \<le> trueLevenshtein xs ys + trueLevenshtein xs' ys'"
proof (induction xs ys rule: trueLevenshtein.induct)
  case (1 ys)
  show ?case by (simp add: lev_Nil_append_le)
next
  case (2 x xs)
  show ?case using lev_append_Nil_le [of "x # xs" xs' ys'] by simp
next
  case (3 x xs y ys)
  have a: "trueLevenshtein ((x # xs) @ xs') ((y # ys) @ ys')
             \<le> trueLevenshtein (xs @ xs') ((y # ys) @ ys') + 1"
    using lev_Cons1_le [of x "xs @ xs'" "(y # ys) @ ys'"] by simp
  have b: "trueLevenshtein ((x # xs) @ xs') ((y # ys) @ ys')
             \<le> trueLevenshtein ((x # xs) @ xs') (ys @ ys') + 1"
    using lev_Cons2_le [of "(x # xs) @ xs'" y "ys @ ys'"] by simp
  have c: "trueLevenshtein ((x # xs) @ xs') ((y # ys) @ ys')
             \<le> trueLevenshtein (xs @ xs') (ys @ ys') + (if x = y then 0 else 1)"
    using lev_Cons12_le [of x "xs @ xs'" y "ys @ ys'"] by simp
  consider (del) "trueLevenshtein (x # xs) (y # ys) = trueLevenshtein xs (y # ys) + 1"
    | (ins) "trueLevenshtein (x # xs) (y # ys) = trueLevenshtein (x # xs) ys + 1"
    | (sub) "trueLevenshtein (x # xs) (y # ys) = trueLevenshtein xs ys + (if x = y then 0 else 1)"
    using lev_Cons_cases [of x xs y ys] by blast
  then show ?case
  proof cases
    case del
    with a "3.IH"(1) show ?thesis by linarith
  next
    case ins
    with b "3.IH"(2) show ?thesis by linarith
  next
    case sub
    with c "3.IH"(3) show ?thesis by linarith
  qed
qed

lemma lev_snoc1_le: "trueLevenshtein (xs @ [x]) ys \<le> trueLevenshtein xs ys + 1"
  using lev_append_le [of xs "[x]" ys "[]"] by simp

lemma lev_snoc2_le: "trueLevenshtein xs (ys @ [y]) \<le> trueLevenshtein xs ys + 1"
  using lev_append_le [of xs "[]" ys "[y]"] by simp

lemma lev_snoc12_le:
  "trueLevenshtein (xs @ [x]) (ys @ [y]) \<le> trueLevenshtein xs ys + (if x = y then 0 else 1)"
  using lev_append_le [of xs "[x]" ys "[y]"] by simp

lemma lev_rev_le: "trueLevenshtein (rev xs) (rev ys) \<le> trueLevenshtein xs ys"
proof (induction xs ys rule: trueLevenshtein.induct)
  case (1 ys)
  show ?case by simp
next
  case (2 x xs)
  show ?case by (simp add: lev_Nil2)
next
  case (3 x xs y ys)
  have a: "trueLevenshtein (rev (x # xs)) (rev (y # ys)) \<le> trueLevenshtein xs (y # ys) + 1"
    using lev_snoc1_le [of "rev xs" x "rev (y # ys)"] "3.IH"(1) by simp
  have b: "trueLevenshtein (rev (x # xs)) (rev (y # ys)) \<le> trueLevenshtein (x # xs) ys + 1"
    using lev_snoc2_le [of "rev (x # xs)" "rev ys" y] "3.IH"(2) by simp
  have c: "trueLevenshtein (rev (x # xs)) (rev (y # ys))
             \<le> trueLevenshtein xs ys + (if x = y then 0 else 1)"
    using lev_snoc12_le [of "rev xs" x "rev ys" y] "3.IH"(3) by simp
  from a b c show ?case by (simp del: rev.simps)
qed

lemma lev_rev: "trueLevenshtein (rev xs) (rev ys) = trueLevenshtein xs ys"
  using lev_rev_le [of xs ys] lev_rev_le [of "rev xs" "rev ys"] by simp

lemma lev_snoc:
  "trueLevenshtein (xs @ [x]) (ys @ [y]) =
     min (min (trueLevenshtein xs (ys @ [y]) + 1) (trueLevenshtein (xs @ [x]) ys + 1))
         (trueLevenshtein xs ys + (if x = y then 0 else 1))"
proof -
  have "trueLevenshtein (xs @ [x]) (ys @ [y]) = trueLevenshtein (x # rev xs) (y # rev ys)"
    using lev_rev [of "xs @ [x]" "ys @ [y]"] by simp
  moreover have "trueLevenshtein (rev xs) (y # rev ys) = trueLevenshtein xs (ys @ [y])"
    using lev_rev [of xs "ys @ [y]"] by simp
  moreover have "trueLevenshtein (x # rev xs) (rev ys) = trueLevenshtein (xs @ [x]) ys"
    using lev_rev [of "xs @ [x]" ys] by simp
  ultimately show ?thesis by (simp add: lev_rev)
qed

lemma lev_split:
  "\<exists>ys1 ys2. ys = ys1 @ ys2 \<and>
     trueLevenshtein xs ys1 + trueLevenshtein xs' ys2 \<le> trueLevenshtein (xs @ xs') ys"
proof (induction xs ys rule: trueLevenshtein.induct)
  case (1 ys)
  show ?case
    by (rule exI [of _ "[]"], rule exI [of _ ys]) simp
next
  case (2 x xs)
  show ?case
    by (rule exI [of _ "[]"], rule exI [of _ "[]"]) (simp add: lev_Nil2)
next
  case (3 x xs y ys)
  let ?L = "trueLevenshtein ((x # xs) @ xs') (y # ys)"
  have "?L = trueLevenshtein (xs @ xs') (y # ys) + 1
      \<or> ?L = trueLevenshtein ((x # xs) @ xs') ys + 1
      \<or> ?L = trueLevenshtein (xs @ xs') ys + (if x = y then 0 else 1)"
    using lev_Cons_cases [of x "xs @ xs'" y ys] by simp
  then consider (del) "?L = trueLevenshtein (xs @ xs') (y # ys) + 1"
    | (ins) "?L = trueLevenshtein ((x # xs) @ xs') ys + 1"
    | (sub) "?L = trueLevenshtein (xs @ xs') ys + (if x = y then 0 else 1)"
    by blast
  then show ?case
  proof cases
    case del
    from "3.IH"(1) obtain ys1 ys2 where s: "y # ys = ys1 @ ys2"
      and le: "trueLevenshtein xs ys1 + trueLevenshtein xs' ys2 \<le> trueLevenshtein (xs @ xs') (y # ys)"
      by blast
    have "trueLevenshtein (x # xs) ys1 \<le> trueLevenshtein xs ys1 + 1" by (rule lev_Cons1_le)
    with le del have "trueLevenshtein (x # xs) ys1 + trueLevenshtein xs' ys2 \<le> ?L" by linarith
    with s show ?thesis
      by (intro exI [of _ ys1] exI [of _ ys2] conjI)
  next
    case ins
    from "3.IH"(2) obtain ys1 ys2 where s: "ys = ys1 @ ys2"
      and le: "trueLevenshtein (x # xs) ys1 + trueLevenshtein xs' ys2
                 \<le> trueLevenshtein ((x # xs) @ xs') ys"
      by blast
    have "trueLevenshtein (x # xs) (y # ys1) \<le> trueLevenshtein (x # xs) ys1 + 1"
      by (rule lev_Cons2_le)
    with le ins have "trueLevenshtein (x # xs) (y # ys1) + trueLevenshtein xs' ys2 \<le> ?L"
      by linarith
    moreover from s have "y # ys = (y # ys1) @ ys2" by simp
    ultimately show ?thesis
      by (intro exI [of _ "y # ys1"] exI [of _ ys2] conjI)
  next
    case sub
    from "3.IH"(3) obtain ys1 ys2 where s: "ys = ys1 @ ys2"
      and le: "trueLevenshtein xs ys1 + trueLevenshtein xs' ys2 \<le> trueLevenshtein (xs @ xs') ys"
      by blast
    have "trueLevenshtein (x # xs) (y # ys1)
            \<le> trueLevenshtein xs ys1 + (if x = y then 0 else 1)"
      by (rule lev_Cons12_le)
    with le sub have "trueLevenshtein (x # xs) (y # ys1) + trueLevenshtein xs' ys2 \<le> ?L"
      by linarith
    moreover from s have "y # ys = (y # ys1) @ ys2" by simp
    ultimately show ?thesis
      by (intro exI [of _ "y # ys1"] exI [of _ ys2] conjI)
  qed
qed

subsection \<open>The banded dynamic program\<close>

lemma lev_D_row0: "j \<le> length b \<Longrightarrow> lev_D a b 0 j = int j"
  by (simp add: lev_D_def)

lemma lev_D_col0: "i \<le> length a \<Longrightarrow> lev_D a b i 0 = int i"
  by (simp add: lev_D_def lev_Nil2)

lemma lev_D_rec:
  assumes "0 < i" "i \<le> length a" "0 < j" "j \<le> length b"
  shows "lev_D a b i j =
     min (lev_D a b (i - 1) j + 1)
         (min (lev_D a b i (j - 1) + 1)
              (lev_D a b (i - 1) (j - 1) + (if a ! (i - 1) = b ! (j - 1) then 0 else 1)))"
proof -
  from assms obtain i' j' where ij: "i = Suc i'" "j = Suc j'" "i' < length a" "j' < length b"
    by (cases i; cases j) auto
  have ta: "take (Suc i') a = take i' a @ [a ! i']"
    using ij by (simp add: take_Suc_conv_app_nth)
  have tb: "take (Suc j') b = take j' b @ [b ! j']"
    using ij by (simp add: take_Suc_conv_app_nth)
  let ?A = "trueLevenshtein (take i' a) (take j' b @ [b ! j'])"
  let ?B = "trueLevenshtein (take i' a @ [a ! i']) (take j' b)"
  let ?C = "trueLevenshtein (take i' a) (take j' b)"
  let ?c = "if a ! i' = b ! j' then 0 else 1 :: nat"
  have "trueLevenshtein (take i' a @ [a ! i']) (take j' b @ [b ! j']) =
     min (min (?A + 1) (?B + 1)) (?C + ?c)"
    by (rule lev_snoc)
  then have "int (trueLevenshtein (take i' a @ [a ! i']) (take j' b @ [b ! j'])) =
     int (min (?A + 1) (min (?B + 1) (?C + ?c)))"
    by (simp only: min.assoc)
  also have "\<dots> = min (int ?A + 1) (min (int ?B + 1) (int ?C + int ?c))"
    by (simp only: of_nat_min of_nat_add of_nat_1)
  also have "int ?c = (if a ! i' = b ! j' then 0 else 1)" by simp
  finally show ?thesis
    unfolding lev_D_def ij ta tb by simp
qed

lemma lev_D_ge:
  assumes "i \<le> length a" "j \<le> length b"
  shows "\<bar>int i - int j\<bar> \<le> lev_D a b i j"
  using lev_abs_diff [of "take i a" "take j b"] assms by (simp add: lev_D_def min_absorb2)

lemma lev_cap_add:
  "lev_cap k x = lev_cap k y \<Longrightarrow> 0 \<le> c \<Longrightarrow> lev_cap k (x + c) = lev_cap k (y + c)"
  unfolding lev_cap_def by linarith

lemma lev_cap_min: "lev_cap k (min x y) = min (lev_cap k x) (lev_cap k y)"
  unfolding lev_cap_def by linarith

lemma lev_cap_big: "k + 1 \<le> x \<Longrightarrow> lev_cap k x = k + 1"
  unfolding lev_cap_def by linarith

lemma lev_cell_cap:
  assumes k: "0 \<le> k" and i: "0 < i" "i \<le> length a" and j: "0 < j" "j \<le> length b"
    and prev: "lev_row_ok a b k (i - 1) prev"
    and cur: "lev_cap k (cur ! (j - 1)) = lev_cap k (lev_D a b i (j - 1))"
  shows "lev_cap k (lev_cell prev cur (a ! (i - 1)) b j) = lev_cap k (lev_D a b i j)"
proof -
  let ?c = "if a ! (i - 1) = b ! (j - 1) then 0 else 1 :: int"
  have p1: "lev_cap k (prev ! j) = lev_cap k (lev_D a b (i - 1) j)"
    using prev j by (simp add: lev_row_ok_def)
  have p2: "lev_cap k (prev ! (j - 1)) = lev_cap k (lev_D a b (i - 1) (j - 1))"
    using prev j by (simp add: lev_row_ok_def)
  have c0: "0 \<le> ?c" by simp
  have "lev_cap k (min (prev ! j + 1) (min (cur ! (j - 1) + 1) (prev ! (j - 1) + ?c))) =
        lev_cap k (min (lev_D a b (i - 1) j + 1)
                       (min (lev_D a b i (j - 1) + 1) (lev_D a b (i - 1) (j - 1) + ?c)))"
    unfolding lev_cap_min
    using lev_cap_add [OF p1, of 1] lev_cap_add [OF cur, of 1] lev_cap_add [OF p2 c0]
    by simp
  then show ?thesis
    unfolding lev_cell_def Let_def lev_D_rec [OF i j] .
qed

lemma lev_inner_correct:
  assumes k: "0 \<le> k" and i: "0 < i" "i \<le> length a"
    and prev: "lev_row_ok a b k (i - 1) prev"
    and e1: "e1 \<le> length b + 1"
    and out: "\<forall>j. e1 \<le> j \<and> j \<le> length b \<longrightarrow> k + 1 \<le> lev_D a b i j"
  shows "0 < j0 \<Longrightarrow> length cur = length b + 1 \<Longrightarrow>
     (\<forall>j<j0. j \<le> length b \<longrightarrow> lev_cap k (cur ! j) = lev_cap k (lev_D a b i j)) \<Longrightarrow>
     (\<forall>j. j0 \<le> j \<and> j \<le> length b \<longrightarrow> cur ! j = k + 1) \<Longrightarrow>
     (\<forall>j. s \<le> j \<and> j < j0 \<longrightarrow> rm \<le> cur ! j) \<Longrightarrow>
     lev_inner prev (a ! (i - 1)) b [j0..<e1] cur rm = (cur', rm') \<Longrightarrow>
     lev_row_ok a b k i cur' \<and> (\<forall>j. s \<le> j \<and> j < e1 \<longrightarrow> rm' \<le> cur' ! j)"
proof (induction "e1 - j0" arbitrary: j0 cur rm)
  case 0
  then have emp: "[j0..<e1] = []" by simp
  from 0 have eq: "cur' = cur" "rm' = rm" by (simp_all add: emp)
  have "lev_cap k (cur ! j) = lev_cap k (lev_D a b i j)" if "j \<le> length b" for j
  proof (cases "j < j0")
    case True
    with 0 that show ?thesis by simp
  next
    case False
    with 0 that have "cur ! j = k + 1" "k + 1 \<le> lev_D a b i j" using out by auto
    then show ?thesis by (simp add: lev_cap_big)
  qed
  moreover have "rm \<le> cur ! j" if "s \<le> j" "j < e1" for j
    using 0 that by simp
  ultimately show ?case using 0 by (simp add: eq lev_row_ok_def)
next
  case (Suc n)
  then have lt: "j0 < e1" by simp
  then have up: "[j0..<e1] = j0 # [Suc j0..<e1]" by (rule upt_conv_Cons)
  from lt e1 have j0b: "j0 \<le> length b" by simp
  let ?v = "lev_cell prev cur (a ! (i - 1)) b j0"
  let ?cur = "cur[j0 := ?v]"
  let ?rm = "if ?v < rm then ?v else rm"
  have run: "lev_inner prev (a ! (i - 1)) b [Suc j0..<e1] ?cur ?rm = (cur', rm')"
    using Suc.prems(6) unfolding up by (simp only: lev_inner.simps Let_def)
  have c1: "lev_cap k (cur ! (j0 - 1)) = lev_cap k (lev_D a b i (j0 - 1))"
    using Suc.prems(1,3) j0b by simp
  have v: "lev_cap k ?v = lev_cap k (lev_D a b i j0)"
    by (rule lev_cell_cap [OF k i Suc.prems(1) j0b prev c1])
  have len: "length ?cur = length b + 1" using Suc.prems(2) by simp
  have j0lt: "j0 < length cur" using Suc.prems(2) j0b by simp
  have a1: "\<forall>j<Suc j0. j \<le> length b \<longrightarrow> lev_cap k (?cur ! j) = lev_cap k (lev_D a b i j)"
  proof (intro allI impI)
    fix j assume "j < Suc j0" "j \<le> length b"
    then show "lev_cap k (?cur ! j) = lev_cap k (lev_D a b i j)"
      using Suc.prems(3) v j0lt by (cases "j = j0") simp_all
  qed
  have a2: "\<forall>j. Suc j0 \<le> j \<and> j \<le> length b \<longrightarrow> ?cur ! j = k + 1"
    using Suc.prems(4) by simp
  have a3: "\<forall>j. s \<le> j \<and> j < Suc j0 \<longrightarrow> ?rm \<le> ?cur ! j"
  proof (intro allI impI)
    fix j assume h: "s \<le> j \<and> j < Suc j0"
    show "?rm \<le> ?cur ! j"
    proof (cases "j = j0")
      case True
      then show ?thesis using j0lt by simp
    next
      case False
      with h have "rm \<le> cur ! j" using Suc.prems(5) by simp
      with False show ?thesis by simp
    qed
  qed
  have n: "n = e1 - Suc j0" using Suc.hyps(2) by simp
  show ?case
    by (rule Suc.hyps(1) [OF n _ len a1 a2 a3 run]) simp
qed

lemma map_nat_upto: "0 \<le> s \<Longrightarrow> map nat [s..e] = [nat s..<nat (e + 1)]"
proof (induction s e rule: upto.induct)
  case (1 i j)
  show ?case
  proof (cases "i \<le> j")
    case True
    then have "[i..j] = i # [i + 1..j]" by (simp add: upto_rec1)
    moreover have "map nat [i + 1..j] = [nat (i + 1)..<nat (j + 1)]"
      using 1 True by simp
    moreover have "[nat i..<nat (j + 1)] = nat i # [Suc (nat i)..<nat (j + 1)]"
      using 1 True by (intro upt_conv_Cons) linarith
    moreover have "Suc (nat i) = nat (i + 1)" using 1 by linarith
    ultimately show ?thesis by simp
  next
    case False
    then show ?thesis by simp
  qed
qed

lemma lev_row_step:
  assumes k: "0 \<le> k" and i: "0 < i" "i \<le> length a"
    and prev: "lev_row_ok a b k (i - 1) prev"
    and run: "lev_inner prev (a ! (i - 1)) b
           (map nat [max 1 (int i - k)..min (int (length b)) (int i + k)])
           ((replicate (length b + 1) (k + 1))[0 := int i]) (k + 1) = (cur', rm')"
  shows "lev_row_ok a b k i cur'"
    and "\<forall>j. 0 < j \<and> j \<le> length b \<and> int i - k \<le> int j \<and> int j \<le> int i + k
           \<longrightarrow> rm' \<le> cur' ! j"
proof -
  let ?s = "nat (max 1 (int i - k))"
  let ?e1 = "nat (min (int (length b)) (int i + k) + 1)"
  let ?cur = "(replicate (length b + 1) (k + 1))[0 := int i]"
  have run': "lev_inner prev (a ! (i - 1)) b [?s..<?e1] ?cur (k + 1) = (cur', rm')"
    using run by (simp add: map_nat_upto)
  have e1: "?e1 \<le> length b + 1" by linarith
  have out: "\<forall>j. ?e1 \<le> j \<and> j \<le> length b \<longrightarrow> k + 1 \<le> lev_D a b i j"
  proof (intro allI impI)
    fix j assume h: "?e1 \<le> j \<and> j \<le> length b"
    then have "int i + k + 1 \<le> int j" by linarith
    moreover have "\<bar>int i - int j\<bar> \<le> lev_D a b i j"
      using h i by (intro lev_D_ge) simp_all
    ultimately show "k + 1 \<le> lev_D a b i j" by linarith
  qed
  have s0: "0 < ?s" by linarith
  have len: "length ?cur = length b + 1" by simp
  have a1: "\<forall>j<?s. j \<le> length b \<longrightarrow> lev_cap k (?cur ! j) = lev_cap k (lev_D a b i j)"
  proof (intro allI impI)
    fix j assume h: "j < ?s" "j \<le> length b"
    show "lev_cap k (?cur ! j) = lev_cap k (lev_D a b i j)"
    proof (cases "j = 0")
      case True
      then show ?thesis using i by (simp add: lev_D_col0)
    next
      case False
      then have c: "?cur ! j = k + 1" using h by simp
      from h False have "int j + k + 1 \<le> int i" by linarith
      moreover have "\<bar>int i - int j\<bar> \<le> lev_D a b i j"
        using h i by (intro lev_D_ge) simp_all
      ultimately have "k + 1 \<le> lev_D a b i j" by linarith
      then show ?thesis unfolding c by (simp add: lev_cap_big)
    qed
  qed
  have a2: "\<forall>j. ?s \<le> j \<and> j \<le> length b \<longrightarrow> ?cur ! j = k + 1"
  proof (intro allI impI)
    fix j assume h: "?s \<le> j \<and> j \<le> length b"
    with s0 have j: "j \<noteq> 0" "j < length b + 1" by linarith+
    have "?cur ! j = replicate (length b + 1) (k + 1) ! j"
      using j by (simp only: nth_list_update_neq not_sym)
    also have "\<dots> = k + 1" using j by (simp only: nth_replicate)
    finally show "?cur ! j = k + 1" .
  qed
  have a3: "\<forall>j. ?s \<le> j \<and> j < ?s \<longrightarrow> k + 1 \<le> ?cur ! j" by simp
  have res: "lev_row_ok a b k i cur' \<and> (\<forall>j. ?s \<le> j \<and> j < ?e1 \<longrightarrow> rm' \<le> cur' ! j)"
    by (rule lev_inner_correct [OF k i prev e1 out s0 len a1 a2 a3 run'])
  then show "lev_row_ok a b k i cur'" by simp
  show "\<forall>j. 0 < j \<and> j \<le> length b \<and> int i - k \<le> int j \<and> int j \<le> int i + k
           \<longrightarrow> rm' \<le> cur' ! j"
  proof (intro allI impI)
    fix j assume h: "0 < j \<and> j \<le> length b \<and> int i - k \<le> int j \<and> int j \<le> int i + k"
    then have "?s \<le> j \<and> j < ?e1" by linarith
    with res show "rm' \<le> cur' ! j" by simp
  qed
qed

lemma lev_early_exit:
  assumes k: "0 \<le> k" and i: "0 < i" "i \<le> length a" and ab: "length a \<le> length b"
    and row: "\<forall>j. 0 < j \<and> j \<le> length b \<longrightarrow> k < lev_D a b i j"
  shows "k < int (trueLevenshtein a b)"
proof -
  obtain ys1 ys2 where b: "b = ys1 @ ys2"
    and le: "trueLevenshtein (take i a) ys1 + trueLevenshtein (drop i a) ys2
               \<le> trueLevenshtein (take i a @ drop i a) b"
    using lev_split [of b "take i a" "drop i a"] by blast
  have le': "trueLevenshtein (take i a) ys1 + trueLevenshtein (drop i a) ys2
               \<le> trueLevenshtein a b"
    using le by simp
  show ?thesis
  proof (cases "ys1 = []")
    case False
    let ?j = "length ys1"
    have j: "0 < ?j \<and> ?j \<le> length b" using False b by simp
    have "take ?j b = ys1" using b by simp
    then have "lev_D a b i ?j = int (trueLevenshtein (take i a) ys1)"
      by (simp add: lev_D_def)
    moreover have "k < lev_D a b i ?j" using row j by blast
    ultimately show ?thesis using le' by linarith
  next
    case True
    then have b2: "ys2 = b" using b by simp
    have l1: "trueLevenshtein (take i a) ys1 = i"
      using True i by (simp add: lev_Nil2)
    have "length b - length (drop i a) \<le> trueLevenshtein (drop i a) b"
      by (rule lev_ge_diff)
    then have l2: "i \<le> trueLevenshtein (drop i a) b" using i ab by simp
    from i ab obtain y ys where bc: "b = y # ys" by (cases b) auto
    have "lev_D a b i 1 = int (trueLevenshtein (take i a) [y])"
      by (simp add: lev_D_def bc)
    moreover have "trueLevenshtein (take i a) [y] \<le> trueLevenshtein (take i a) [] + 1"
      by (rule lev_Cons2_le)
    moreover have "trueLevenshtein (take i a) [] = i" using i by (simp add: lev_Nil2)
    moreover have "k < lev_D a b i 1" using row bc by simp
    ultimately have "k < int i + 1" by linarith
    moreover have "i + i \<le> trueLevenshtein a b" using l1 l2 le' b2 by simp
    ultimately show ?thesis using i by linarith
  qed
qed

lemma lev_rows_correct:
  assumes k: "0 \<le> k" and ab: "length a \<le> length b"
  shows "0 < i0 \<Longrightarrow> i0 \<le> length a + 1 \<Longrightarrow> lev_row_ok a b k (i0 - 1) prev \<Longrightarrow>
     lev_rows a b k [i0..<length a + 1] prev = min (int (trueLevenshtein a b)) (k + 1)"
proof (induction "length a + 1 - i0" arbitrary: i0 prev)
  case 0
  then have i0: "i0 = length a + 1" by simp
  have "lev_cap k (prev ! length b) = lev_cap k (lev_D a b (length a) (length b))"
    using 0(4) by (simp add: lev_row_ok_def i0)
  then have "lev_cap k (prev ! length b) = lev_cap k (int (trueLevenshtein a b))"
    by (simp add: lev_D_def)
  then have "min (prev ! length b) (k + 1) = min (int (trueLevenshtein a b)) (k + 1)"
    by (simp only: lev_cap_def)
  moreover have "lev_rows a b k [i0..<length a + 1] prev =
      (if prev ! length b \<le> k then prev ! length b else k + 1)"
    by (simp add: i0)
  ultimately show ?case by (simp split: if_splits)
next
  case (Suc n)
  then have i0: "0 < i0" "i0 \<le> length a" by simp_all
  have up: "[i0..<length a + 1] = i0 # [Suc i0..<length a + 1]"
    using i0 by (intro upt_conv_Cons) simp
  obtain cur' rm' where run: "lev_inner prev (a ! (i0 - 1)) b
           (map nat [max 1 (int i0 - k)..min (int (length b)) (int i0 + k)])
           ((replicate (length b + 1) (k + 1))[0 := int i0]) (k + 1) = (cur', rm')"
    by (cases "lev_inner prev (a ! (i0 - 1)) b
           (map nat [max 1 (int i0 - k)..min (int (length b)) (int i0 + k)])
           ((replicate (length b + 1) (k + 1))[0 := int i0]) (k + 1)") blast
  have ok: "lev_row_ok a b k i0 cur'"
    by (rule lev_row_step(1) [OF k i0 Suc.prems(3) run])
  have band: "\<forall>j. 0 < j \<and> j \<le> length b \<and> int i0 - k \<le> int j \<and> int j \<le> int i0 + k
           \<longrightarrow> rm' \<le> cur' ! j"
    by (rule lev_row_step(2) [OF k i0 Suc.prems(3) run])
  have unfold: "lev_rows a b k [i0..<length a + 1] prev =
      (if rm' > k then k + 1 else lev_rows a b k [Suc i0..<length a + 1] cur')"
    unfolding up lev_rows.simps Let_def run by simp
  show ?case
  proof (cases "rm' > k")
    case True
    have "k < lev_D a b i0 j" if j: "0 < j \<and> j \<le> length b" for j
    proof (cases "int i0 - k \<le> int j \<and> int j \<le> int i0 + k")
      case inb: True
      with band j have "rm' \<le> cur' ! j" by blast
      with True have big: "k + 1 \<le> cur' ! j" by linarith
      have "lev_cap k (cur' ! j) = lev_cap k (lev_D a b i0 j)"
        using ok j by (simp add: lev_row_ok_def)
      with big show ?thesis by (simp add: lev_cap_def min_def split: if_splits)
    next
      case False
      moreover have "\<bar>int i0 - int j\<bar> \<le> lev_D a b i0 j"
        using j i0 by (intro lev_D_ge) simp_all
      ultimately show ?thesis by linarith
    qed
    then have "k < int (trueLevenshtein a b)"
      by (intro lev_early_exit [OF k i0 ab]) blast
    with True show ?thesis unfolding unfold by simp
  next
    case False
    have n: "n = length a + 1 - Suc i0" using Suc.hyps(2) by simp
    have "lev_rows a b k [Suc i0..<length a + 1] cur' = min (int (trueLevenshtein a b)) (k + 1)"
      using ok i0 by (intro Suc.hyps(1) [OF n]) simp_all
    with False show ?thesis unfolding unfold by simp
  qed
qed

lemma lev_row_ok_init: "lev_row_ok a b k 0 (map int [0..<length b + 1])"
  unfolding lev_row_ok_def
proof (intro conjI allI impI)
  show "length (map int [0..<length b + 1]) = length b + 1" by simp
next
  fix j assume "j \<le> length b"
  then have "map int [0..<length b + 1] ! j = int j"
    by (simp add: nth_append less_Suc_eq_le [symmetric] del: upt_Suc)
  then show "lev_cap k (map int [0..<length b + 1] ! j) = lev_cap k (lev_D a b 0 j)"
    using \<open>j \<le> length b\<close> by (simp add: lev_D_row0)
qed

lemma lev_banded_correct:
  assumes k: "0 \<le> k" and ab: "length a \<le> length b"
  shows "lev_rows a b k [1..<length a + 1] (map int [0..<length b + 1]) =
      min (int (trueLevenshtein a b)) (k + 1)"
  using lev_row_ok_init [of a b k]
  by (intro lev_rows_correct [OF k ab]) simp_all

text \<open>
  Claim C1. For all strings \<open>a\<close>, \<open>b\<close> and every bound \<open>k \<ge> 0\<close>,
  \<open>bounded_levenshtein a b k\<close> is the minimum of the true Levenshtein distance and \<open>k + 1\<close>:
  the exact distance when it is at most \<open>k\<close>, the sentinel \<open>k + 1\<close> otherwise. The band and
  the early exit on a row whose minimum exceeds \<open>k\<close> do not change the result.
\<close>

theorem bounded_levenshtein_correct:
  assumes "0 \<le> k"
  shows "bounded_levenshtein a b k = min (int (trueLevenshtein a b)) (k + 1)"
proof (cases "a = b")
  case True
  then show ?thesis using assms by (simp add: bounded_levenshtein_def lev_refl)
next
  case ne: False
  show ?thesis
  proof (cases "\<bar>int (length a) - int (length b)\<bar> > k")
    case True
    moreover have "\<bar>int (length a) - int (length b)\<bar> \<le> int (trueLevenshtein a b)"
      by (rule lev_abs_diff)
    ultimately show ?thesis using ne by (simp add: bounded_levenshtein_def)
  next
    case False
    show ?thesis
    proof (cases "length a > length b")
      case True
      then have "length b \<le> length a" by simp
      from lev_banded_correct [OF assms this] ne False True show ?thesis
        by (simp add: bounded_levenshtein_def lev_sym [of a b])
    next
      case le: False
      then have "length a \<le> length b" by simp
      from lev_banded_correct [OF assms this] ne False le show ?thesis
        by (simp add: bounded_levenshtein_def)
    qed
  qed
qed

theorem bounded_levenshtein_correct_witness:
  "(0::int) \<le> 2 \<and>
   bounded_levenshtein ''kitten'' ''sitting'' 2 = min (int (trueLevenshtein ''kitten'' ''sitting'')) (2 + 1)"
  using bounded_levenshtein_correct [of 2 "''kitten''" "''sitting''"] by simp

section \<open>Properties of the masker\<close>

subsection \<open>The inner loops move forward and stay inside the text\<close>

lemma scan_until_ge: "i \<le> scan_until src c i"
proof (induction src c i rule: scan_until.induct)
  case (1 src c i)
  then show ?case by (subst scan_until.simps) (auto simp: Suc_leD)
qed

lemma scan_until_le: "i \<le> length src \<Longrightarrow> scan_until src c i \<le> length src"
proof (induction src c i rule: scan_until.induct)
  case (1 src c i)
  then show ?case by (subst scan_until.simps) auto
qed

lemma skip_block_ge: "i \<le> skip_block src i"
proof (induction src i rule: skip_block.induct)
  case (1 src i)
  then show ?case by (subst skip_block.simps) (auto simp: Suc_leD)
qed

lemma skip_quoted_ge: "i \<le> skip_quoted src q i"
proof (induction src q i rule: skip_quoted.induct)
  case (1 src q i)
  show ?case
  proof (cases "i < length src")
    case False
    then show ?thesis by (subst skip_quoted.simps) simp
  next
    case lt: True
    show ?thesis
    proof (cases "src ! i = CHR 0x5C \<and> i + 1 < length src")
      case True
      with lt 1(1) have "i + 2 \<le> skip_quoted src q (i + 2)" by simp
      with lt True show ?thesis by (subst skip_quoted.simps) simp
    next
      case esc: False
      show ?thesis
      proof (cases "src ! i = q")
        case True
        with lt esc show ?thesis by (subst skip_quoted.simps) auto
      next
        case False
        with lt esc 1(2) have "i + 1 \<le> skip_quoted src q (i + 1)" by simp
        with lt esc False show ?thesis by (subst skip_quoted.simps) auto
      qed
    qed
  qed
qed

lemma skip_quoted_le: "i \<le> length src \<Longrightarrow> skip_quoted src q i \<le> length src"
proof (induction src q i rule: skip_quoted.induct)
  case (1 src q i)
  then show ?case by (subst skip_quoted.simps) auto
qed

lemma str_find_ge: "str_find s sub i = Some p \<Longrightarrow> i \<le> p"
proof (induction s sub i rule: str_find.induct)
  case (1 s sub i)
  then show ?case by (subst (asm) str_find.simps) (auto simp: Suc_leD split: if_splits)
qed

lemma str_find_le: "str_find s sub i = Some p \<Longrightarrow> p + length sub \<le> length s"
proof (induction s sub i rule: str_find.induct)
  case (1 s sub i)
  then show ?case by (subst (asm) str_find.simps) (auto split: if_splits)
qed

subsection \<open>One step of the loop\<close>

lemma mask_loop_step:
  "mask_loop src i out =
     (if i < length src then
        (case mask_region src i of
           None \<Rightarrow> mask_loop src (i + 1) out
         | Some (e, stop) \<Rightarrow>
             if stop then put_spaces out i e else mask_loop src e (put_spaces out i e))
      else out)"
  by (subst mask_loop.simps) (simp add: mask_region_def Let_def split: option.splits)

lemma mask_region_bounds:
  assumes "i < length src" "mask_region src i = Some (e, stop)"
  shows "i < e \<and> e \<le> length src"
proof -
  have a1: "i + 2 \<le> scan_until src (CHR 0x0A) (i + 2)" by (rule scan_until_ge)
  have a2: "i + 2 \<le> scan_until src (CHR ''('') (i + 2)" by (rule scan_until_ge)
  have b1: "i + 1 < length src \<Longrightarrow> scan_until src (CHR 0x0A) (i + 2) \<le> length src"
    by (rule scan_until_le) simp
  have c: "i + 2 \<le> skip_block src (i + 2)" by (rule skip_block_ge)
  have d1: "i + 1 \<le> skip_quoted src (CHR 0x22) (i + 1)" by (rule skip_quoted_ge)
  have d2: "i + 1 \<le> skip_quoted src (CHR 0x27) (i + 1)" by (rule skip_quoted_ge)
  have e1: "skip_quoted src (CHR 0x22) (i + 1) \<le> length src"
    using assms(1) by (intro skip_quoted_le) simp
  have e2: "skip_quoted src (CHR 0x27) (i + 1) \<le> length src"
    using assms(1) by (intro skip_quoted_le) simp
  have f: "str_find src sub (scan_until src (CHR ''('') (i + 2) + 1) = Some p \<Longrightarrow>
             e = p + length sub \<Longrightarrow> i < e \<and> e \<le> length src" for sub p
    using str_find_ge [of src sub "scan_until src (CHR ''('') (i + 2) + 1" p]
      str_find_le [of src sub "scan_until src (CHR ''('') (i + 2) + 1" p] a2 by simp
  show ?thesis
  proof (cases "src ! i = CHR ''R'' \<and> i + 1 < length src \<and> src ! (i + 1) = CHR 0x22")
    case False
    then show ?thesis
      using assms a1 b1 c d1 d2 e1 e2
      by (auto simp: mask_region_def Let_def split: if_splits)
  next
    case True
    let ?i1 = "scan_until src (CHR ''('') (i + 2)"
    let ?cs = "[CHR '')''] @ take (?i1 - (i + 2)) (drop (i + 2) src) @ [CHR 0x22]"
    from True assms(2) have r: "(if ?i1 \<ge> length src then Some (length src, True)
            else (case str_find src ?cs (?i1 + 1) of
                    None \<Rightarrow> Some (length src, True)
                  | Some close_pos \<Rightarrow> Some (close_pos + length ?cs, False))) = Some (e, stop)"
      unfolding mask_region_def Let_def by simp
    show ?thesis
    proof (cases "?i1 \<ge> length src")
      case True
      with r assms(1) show ?thesis by simp
    next
      case i1: False
      show ?thesis
      proof (cases "str_find src ?cs (?i1 + 1)")
        case None
        with r i1 assms(1) show ?thesis by simp
      next
        case (Some p)
        with r i1 have "e = p + length ?cs" by simp
        with Some show ?thesis by (rule f)
      qed
    qed
  qed
qed

lemma mask_region_None:
  assumes "mask_region src i = None"
  shows "src ! i \<noteq> CHR 0x22 \<and> src ! i \<noteq> CHR 0x27 \<and>
         (src ! i = CHR ''/'' \<longrightarrow> i + 1 < length src \<longrightarrow>
            src ! (i + 1) \<noteq> CHR ''/'' \<and> src ! (i + 1) \<noteq> CHR ''*'')"
  using assms by (auto simp: mask_region_def Let_def split: if_splits option.splits)

lemma length_put_spaces: "length (put_spaces out a b) = length out"
proof -
  have "length (fold (\<lambda>k out. if out ! k \<noteq> CHR 0x0A then out[k := CHR '' ''] else out) ks out)
          = length out" for ks
    by (induction ks arbitrary: out) simp_all
  then show ?thesis by (simp add: put_spaces_def)
qed

lemma put_spaces_Suc:
  "a \<le> b \<Longrightarrow> put_spaces out a (Suc b) =
     (let o' = put_spaces out a b in if o' ! b \<noteq> CHR 0x0A then o'[b := CHR '' ''] else o')"
  by (simp add: put_spaces_def Let_def)

lemma put_spaces_empty: "b \<le> a \<Longrightarrow> put_spaces out a b = out"
  by (simp add: put_spaces_def)

lemma nth_put_spaces:
  "p < length out \<Longrightarrow>
     put_spaces out a b ! p =
       (if a \<le> p \<and> p < b \<and> out ! p \<noteq> CHR 0x0A then CHR '' '' else out ! p)"
proof (induction b)
  case 0
  then show ?case by (simp add: put_spaces_empty)
next
  case (Suc b)
  show ?case
  proof (cases "a \<le> b")
    case False
    then have "Suc b \<le> a" by simp
    then show ?thesis by (auto simp: put_spaces_empty)
  next
    case True
    show ?thesis
      using Suc True
      by (cases "p = b") (auto simp: put_spaces_Suc Let_def length_put_spaces)
  qed
qed

subsection \<open>Length and newlines are preserved\<close>

lemma masked_of_refl: "masked_of src src"
  by (simp add: masked_of_def)

lemma masked_of_put_spaces: "masked_of src out \<Longrightarrow> masked_of src (put_spaces out a b)"
  unfolding masked_of_def
  by (auto simp: length_put_spaces nth_put_spaces)

lemma mask_loop_masked: "masked_of src out \<Longrightarrow> masked_of src (mask_loop src i out)"
proof (induction "length src - i" arbitrary: i out rule: less_induct)
  case less
  show ?case
  proof (cases "i < length src")
    case False
    with less.prems show ?thesis by (subst mask_loop_step) simp
  next
    case lt: True
    show ?thesis
    proof (cases "mask_region src i")
      case None
      have "length src - (i + 1) < length src - i" using lt by linarith
      then have "masked_of src (mask_loop src (i + 1) out)"
        using less.prems by (rule less.hyps)
      with lt None show ?thesis by (subst mask_loop_step) simp
    next
      case (Some r)
      obtain e stop where r: "r = (e, stop)" by (cases r)
      have b: "i < e \<and> e \<le> length src"
        using mask_region_bounds [OF lt] Some r by simp
      have m: "masked_of src (put_spaces out i e)"
        using less.prems by (rule masked_of_put_spaces)
      show ?thesis
      proof (cases stop)
        case True
        with lt Some r m show ?thesis by (subst mask_loop_step) simp
      next
        case False
        have "length src - e < length src - i" using lt b by linarith
        then have "masked_of src (mask_loop src e (put_spaces out i e))"
          using m by (rule less.hyps)
        with lt Some r False show ?thesis by (subst mask_loop_step) simp
      qed
    qed
  qed
qed

text \<open>
  Claim C2. For every input the masker returns a string of the same length; a position
  holds a newline in the output exactly when it does in the input; and every other
  character is either unchanged or replaced by a space.
\<close>

theorem mask_preserves_layout:
  "length (mask_cpp_comments_and_strings s) = length s \<and>
   (\<forall>p<length s.
      (mask_cpp_comments_and_strings s ! p = CHR 0x0A \<longleftrightarrow> s ! p = CHR 0x0A) \<and>
      (s ! p \<noteq> CHR 0x0A \<longrightarrow>
         mask_cpp_comments_and_strings s ! p = s ! p \<or>
         mask_cpp_comments_and_strings s ! p = CHR '' ''))"
proof -
  have "masked_of s (mask_cpp_comments_and_strings s)"
    unfolding mask_cpp_comments_and_strings_def
    by (rule mask_loop_masked [OF masked_of_refl])
  then show ?thesis unfolding masked_of_def by auto
qed

theorem mask_preserves_layout_witness:
  "(7::nat) < length (''int x; // bad'' @ [CHR 0x0A]) \<and>
   (''int x; // bad'' @ [CHR 0x0A]) ! 7 \<noteq> CHR 0x0A \<and>
   length (mask_cpp_comments_and_strings (''int x; // bad'' @ [CHR 0x0A])) =
     length (''int x; // bad'' @ [CHR 0x0A]) \<and>
   mask_cpp_comments_and_strings (''int x; // bad'' @ [CHR 0x0A]) ! 7 = CHR '' '' \<and>
   mask_cpp_comments_and_strings (''int x; // bad'' @ [CHR 0x0A]) ! 13 = CHR 0x0A"
proof -
  have e: "mask_cpp_comments_and_strings (''int x; // bad'' @ [CHR 0x0A]) =
             ''int x;       '' @ [CHR 0x0A]"
    by code_simp
  from mask_preserves_layout [of "''int x; // bad'' @ [CHR 0x0A]"] show ?thesis
    unfolding e by simp
qed

subsection \<open>Masking twice\<close>

lemma mask_invI:
  assumes "length out = length src"
    and "\<And>p. p < length src \<Longrightarrow>
        (i \<le> p \<longrightarrow> out ! p = src ! p) \<and>
        (p < i \<longrightarrow> out ! p \<noteq> CHR 0x22 \<and> out ! p \<noteq> CHR 0x27 \<and>
           (out ! p = CHR ''/'' \<longrightarrow> p + 1 < length src \<longrightarrow>
              src ! (p + 1) \<noteq> CHR ''/'' \<and> src ! (p + 1) \<noteq> CHR ''*'')) \<and>
        (out ! p = src ! p \<or> out ! p = CHR '' '' \<or> out ! p = CHR 0x0A)"
  shows "mask_inv src i out"
  unfolding mask_inv_def using assms by blast

lemma mask_inv_init: "mask_inv src 0 src"
  by (simp add: mask_inv_def)

lemma mask_inv_clean:
  assumes "mask_inv src i out" "length src \<le> i"
  shows "mask_clean out"
  unfolding mask_clean_def
proof (intro allI impI)
  fix p assume p: "p < length out"
  from assms have len: "length out = length src" by (simp add: mask_inv_def)
  from assms p len have a: "out ! p \<noteq> CHR 0x22 \<and> out ! p \<noteq> CHR 0x27 \<and>
           (out ! p = CHR ''/'' \<longrightarrow> p + 1 < length src \<longrightarrow>
              src ! (p + 1) \<noteq> CHR ''/'' \<and> src ! (p + 1) \<noteq> CHR ''*'')"
    by (simp add: mask_inv_def)
  have b: "out ! (p + 1) = src ! (p + 1) \<or> out ! (p + 1) = CHR '' '' \<or> out ! (p + 1) = CHR 0x0A"
    if "p + 1 < length src"
    using assms(1) that by (simp add: mask_inv_def)
  show "out ! p \<noteq> CHR 0x22 \<and> out ! p \<noteq> CHR 0x27 \<and>
        (out ! p = CHR ''/'' \<longrightarrow> p + 1 < length out \<longrightarrow>
           out ! (p + 1) \<noteq> CHR ''/'' \<and> out ! (p + 1) \<noteq> CHR ''*'')"
    using a b len by auto
qed

lemma mask_inv_skip:
  assumes "mask_inv src i out" "i < length src" "mask_region src i = None"
  shows "mask_inv src (i + 1) out"
proof -
  have n: "src ! i \<noteq> CHR 0x22 \<and> src ! i \<noteq> CHR 0x27 \<and>
         (src ! i = CHR ''/'' \<longrightarrow> i + 1 < length src \<longrightarrow>
            src ! (i + 1) \<noteq> CHR ''/'' \<and> src ! (i + 1) \<noteq> CHR ''*'')"
    by (rule mask_region_None [OF assms(3)])
  have oi: "out ! i = src ! i" using assms(1,2) by (simp add: mask_inv_def)
  show ?thesis
  proof (rule mask_invI)
    show "length out = length src" using assms(1) by (simp add: mask_inv_def)
  next
    fix p assume p: "p < length src"
    have all: "(i \<le> p \<longrightarrow> out ! p = src ! p) \<and>
        (p < i \<longrightarrow> out ! p \<noteq> CHR 0x22 \<and> out ! p \<noteq> CHR 0x27 \<and>
           (out ! p = CHR ''/'' \<longrightarrow> p + 1 < length src \<longrightarrow>
              src ! (p + 1) \<noteq> CHR ''/'' \<and> src ! (p + 1) \<noteq> CHR ''*'')) \<and>
        (out ! p = src ! p \<or> out ! p = CHR '' '' \<or> out ! p = CHR 0x0A)"
      using assms(1) p by (simp add: mask_inv_def)
    show "(i + 1 \<le> p \<longrightarrow> out ! p = src ! p) \<and>
        (p < i + 1 \<longrightarrow> out ! p \<noteq> CHR 0x22 \<and> out ! p \<noteq> CHR 0x27 \<and>
           (out ! p = CHR ''/'' \<longrightarrow> p + 1 < length src \<longrightarrow>
              src ! (p + 1) \<noteq> CHR ''/'' \<and> src ! (p + 1) \<noteq> CHR ''*'')) \<and>
        (out ! p = src ! p \<or> out ! p = CHR '' '' \<or> out ! p = CHR 0x0A)"
    proof (cases "p = i")
      case True
      with n oi all show ?thesis by simp
    next
      case False
      with all show ?thesis by auto
    qed
  qed
qed

lemma mask_inv_region:
  assumes "mask_inv src i out" "i < e" "e \<le> length src"
  shows "mask_inv src e (put_spaces out i e)"
proof (rule mask_invI)
  show "length (put_spaces out i e) = length src"
    using assms(1) by (simp add: mask_inv_def length_put_spaces)
next
  fix p assume p: "p < length src"
  have len: "length out = length src" using assms(1) by (simp add: mask_inv_def)
  have all: "(i \<le> p \<longrightarrow> out ! p = src ! p) \<and>
        (p < i \<longrightarrow> out ! p \<noteq> CHR 0x22 \<and> out ! p \<noteq> CHR 0x27 \<and>
           (out ! p = CHR ''/'' \<longrightarrow> p + 1 < length src \<longrightarrow>
              src ! (p + 1) \<noteq> CHR ''/'' \<and> src ! (p + 1) \<noteq> CHR ''*'')) \<and>
        (out ! p = src ! p \<or> out ! p = CHR '' '' \<or> out ! p = CHR 0x0A)"
    using assms(1) p by (simp add: mask_inv_def)
  have nth: "put_spaces out i e ! p =
       (if i \<le> p \<and> p < e \<and> out ! p \<noteq> CHR 0x0A then CHR '' '' else out ! p)"
    using p len by (simp add: nth_put_spaces)
  show "(e \<le> p \<longrightarrow> put_spaces out i e ! p = src ! p) \<and>
        (p < e \<longrightarrow> put_spaces out i e ! p \<noteq> CHR 0x22 \<and> put_spaces out i e ! p \<noteq> CHR 0x27 \<and>
           (put_spaces out i e ! p = CHR ''/'' \<longrightarrow> p + 1 < length src \<longrightarrow>
              src ! (p + 1) \<noteq> CHR ''/'' \<and> src ! (p + 1) \<noteq> CHR ''*'')) \<and>
        (put_spaces out i e ! p = src ! p \<or> put_spaces out i e ! p = CHR '' ''
           \<or> put_spaces out i e ! p = CHR 0x0A)"
  proof (cases "p < i")
    case True
    with all nth assms(2) show ?thesis by auto
  next
    case False
    with all nth assms(2) show ?thesis by (cases "p < e") auto
  qed
qed

lemma mask_loop_clean: "mask_inv src i out \<Longrightarrow> mask_clean (mask_loop src i out)"
proof (induction "length src - i" arbitrary: i out rule: less_induct)
  case less
  show ?case
  proof (cases "i < length src")
    case False
    then have "length src \<le> i" by simp
    with less.prems have "mask_clean out" by (rule mask_inv_clean)
    with False show ?thesis by (subst mask_loop_step) simp
  next
    case lt: True
    show ?thesis
    proof (cases "mask_region src i")
      case None
      have "length src - (i + 1) < length src - i" using lt by linarith
      moreover have "mask_inv src (i + 1) out"
        by (rule mask_inv_skip [OF less.prems lt None])
      ultimately have "mask_clean (mask_loop src (i + 1) out)" by (rule less.hyps)
      with lt None show ?thesis by (subst mask_loop_step) simp
    next
      case (Some r)
      obtain e stop where r: "r = (e, stop)" by (cases r)
      have b: "i < e \<and> e \<le> length src"
        using mask_region_bounds [OF lt] Some r by simp
      have m: "mask_inv src e (put_spaces out i e)"
        using b by (intro mask_inv_region [OF less.prems]) simp_all
      show ?thesis
      proof (cases stop)
        case True
        have "e = length src"
          using Some r True
          by (auto simp: mask_region_def Let_def split: if_splits option.splits)
        then have "length src \<le> e" by simp
        with m have "mask_clean (put_spaces out i e)" by (rule mask_inv_clean)
        with lt Some r True show ?thesis by (subst mask_loop_step) simp
      next
        case False
        have "length src - e < length src - i" using lt b by linarith
        then have "mask_clean (mask_loop src e (put_spaces out i e))"
          using m by (rule less.hyps)
        with lt Some r False show ?thesis by (subst mask_loop_step) simp
      qed
    qed
  qed
qed

lemma mask_clean_region: "mask_clean t \<Longrightarrow> i < length t \<Longrightarrow> mask_region t i = None"
  unfolding mask_clean_def mask_region_def Let_def by auto

lemma mask_loop_fixed: "mask_clean t \<Longrightarrow> mask_loop t i out = out"
proof (induction "length t - i" arbitrary: i rule: less_induct)
  case less
  show ?case
  proof (cases "i < length t")
    case False
    then show ?thesis by (subst mask_loop_step) simp
  next
    case True
    then have "length t - (i + 1) < length t - i" by linarith
    then have "mask_loop t (i + 1) out = out" using less.prems by (rule less.hyps)
    with True mask_clean_region [OF less.prems True] show ?thesis
      by (subst mask_loop_step) simp
  qed
qed

text \<open>
  Claim C9. The masker is idempotent: masking its own output changes nothing.
\<close>

theorem mask_idempotent:
  "mask_cpp_comments_and_strings (mask_cpp_comments_and_strings s) =
   mask_cpp_comments_and_strings s"
proof -
  have "mask_clean (mask_cpp_comments_and_strings s)"
    unfolding mask_cpp_comments_and_strings_def
    by (rule mask_loop_clean [OF mask_inv_init])
  then show ?thesis
    unfolding mask_cpp_comments_and_strings_def [of "mask_loop s 0 s"]
    unfolding mask_cpp_comments_and_strings_def
    by (rule mask_loop_fixed)
qed

section \<open>Properties of the tokenizer\<close>

lemma find_in_set: "find P xs = Some x \<Longrightarrow> x \<in> set xs \<and> P x"
  by (induction xs) (auto split: if_splits)

lemma match_at_gt: "match_at uw lin p = Some e \<Longrightarrow> p < e"
  by (auto simp: match_at_def Let_def split: if_splits dest!: find_in_set)


subsection \<open>Runs of word characters\<close>

lemma takeWhile_pos:
  assumes "p \<le> length xs"
  shows "p + length (takeWhile P (drop p xs)) \<le> length xs"
    and "p \<le> q \<Longrightarrow> q < p + length (takeWhile P (drop p xs)) \<Longrightarrow> P (xs ! q)"
    and "p + length (takeWhile P (drop p xs)) < length xs \<Longrightarrow>
           \<not> P (xs ! (p + length (takeWhile P (drop p xs))))"
proof -
  let ?t = "takeWhile P (drop p xs)"
  have le: "length ?t \<le> length (drop p xs)" by (rule length_takeWhile_le)
  then show "p + length ?t \<le> length xs" using assms by simp
  show "P (xs ! q)" if "p \<le> q" "q < p + length ?t"
  proof -
    from that have j: "q - p < length ?t" by simp
    then have "?t ! (q - p) = drop p xs ! (q - p)" by (rule takeWhile_nth)
    also have "\<dots> = xs ! q" using that assms by simp
    finally have "xs ! q = ?t ! (q - p)" by simp
    moreover have "?t ! (q - p) \<in> set ?t" using j by simp
    ultimately have "xs ! q \<in> set ?t" by simp
    then show ?thesis by (rule set_takeWhileD [THEN conjunct2])
  qed
  show "\<not> P (xs ! (p + length ?t))" if "p + length ?t < length xs"
  proof -
    from that have "length ?t < length (drop p xs)" by simp
    then have "\<not> P (drop p xs ! length ?t)" by (rule nth_length_takeWhile)
    then show ?thesis using that by simp
  qed
qed

lemma run_end_gt: "p < length lin \<Longrightarrow> is_word uw (lin ! p) \<Longrightarrow> p < run_end uw lin p"
  by (simp add: run_end_def Cons_nth_drop_Suc [symmetric])

lemma ident_start_char: "is_ident_start c \<Longrightarrow> is_ident_char c"
  by (simp add: is_ident_char_def)

lemma ident_word: "is_ident_char c \<Longrightarrow> is_word uw c"
  unfolding is_word_def is_ident_char_def is_ident_start_def by auto

lemma match_at_inside:
  assumes "0 < p" "p < length lin" "is_word uw (lin ! (p - 1))" "is_word uw (lin ! p)"
  shows "match_at uw lin p = None"
proof -
  have "\<not> boundary uw lin p" using assms by (simp add: boundary_def word_at_def)
  then show ?thesis by (simp add: match_at_def)
qed

lemma match_at_nonword:
  assumes "length lin \<le> p \<or> \<not> is_word uw (lin ! p)"
  shows "match_at uw lin p = None"
  using assms ident_word [OF ident_start_char, of "lin ! p" uw]
  by (auto simp: match_at_def)

lemma match_at_start:
  assumes p: "p < length lin" and w: "is_word uw (lin ! p)"
    and st: "p = 0 \<or> \<not> is_word uw (lin ! (p - 1))"
  shows "match_at uw lin p =
     (if is_ident_start (lin ! p) \<and>
         list_all is_ident_char (take (run_end uw lin p - p) (drop p lin))
      then Some (run_end uw lin p) else None)"
proof (cases "is_ident_start (lin ! p)")
  case False
  then show ?thesis by (simp add: match_at_def)
next
  case start: True
  let ?n = "length lin"
  let ?W = "is_word uw"
  define ie where "ie = p + 1 + length (takeWhile is_ident_char (drop (p + 1) lin))"
  define e where "e = run_end uw lin p"
  have bp: "boundary uw lin p"
    using p w st by (auto simp: boundary_def word_at_def)
  have p1: "p + 1 \<le> ?n" using p by simp
  have ie_n: "ie \<le> ?n"
    unfolding ie_def using takeWhile_pos(1) [OF p1, of is_ident_char] by simp
  have ie_in: "is_ident_char (lin ! q)" if "p + 1 \<le> q" "q < ie" for q
    using takeWhile_pos(2) [OF p1, of q is_ident_char] that unfolding ie_def by simp
  have ie_out: "\<not> is_ident_char (lin ! ie)" if "ie < ?n"
    using takeWhile_pos(3) [OF p1, of is_ident_char] that unfolding ie_def by simp
  have ple: "p \<le> ?n" using p by simp
  have e_n: "e \<le> ?n"
    unfolding e_def run_end_def using takeWhile_pos(1) [OF ple, of ?W] by simp
  have e_in: "?W (lin ! q)" if "p \<le> q" "q < e" for q
    using takeWhile_pos(2) [OF ple, of q ?W] that unfolding e_def run_end_def by simp
  have e_out: "\<not> ?W (lin ! e)" if "e < ?n"
    using takeWhile_pos(3) [OF ple, of ?W] that unfolding e_def run_end_def by simp
  have pe: "p < e" unfolding e_def using p w by (rule run_end_gt)
  have pie: "p + 1 \<le> ie" unfolding ie_def by simp
  have ie_e: "ie \<le> e"
  proof (rule ccontr)
    assume "\<not> ie \<le> e"
    then have lt: "e < ie" by simp
    with ie_n have "e < ?n" by simp
    then have "\<not> ?W (lin ! e)" by (rule e_out)
    moreover have "is_ident_char (lin ! e)" using pe lt by (intro ie_in) simp_all
    ultimately show False using ident_word by blast
  qed
  have wat: "word_at uw lin q" if "p \<le> q" "q < e" for q
    using e_in [OF that] that e_n by (simp add: word_at_def)
  have inner: "\<not> boundary uw lin q" if "q \<in> set (rev [p + 1..<ie])" for q
  proof -
    from that have q: "p + 1 \<le> q" "q < ie" by simp_all
    have "word_at uw lin (q - 1)" using q ie_e by (intro wat) simp_all
    moreover have "word_at uw lin q" using q ie_e by (intro wat) simp_all
    ultimately show ?thesis using q by (simp add: boundary_def)
  qed
  have b_ie: "boundary uw lin ie \<longleftrightarrow> ie = e"
  proof -
    have prevw: "word_at uw lin (ie - 1)" using pie ie_e by (intro wat) simp_all
    show ?thesis
    proof (cases "ie = e")
      case True
      have "\<not> word_at uw lin e" using e_out by (auto simp: word_at_def)
      with prevw True pie show ?thesis by (simp add: boundary_def)
    next
      case False
      with ie_e have "ie < e" by simp
      then have "word_at uw lin ie" using pie by (intro wat) simp_all
      with prevw False pie show ?thesis by (simp add: boundary_def)
    qed
  qed
  have len: "length (take (e - p) (drop p lin)) = e - p" using e_n by simp
  have nth: "take (e - p) (drop p lin) ! j = lin ! (p + j)" if "j < e - p" for j
    using that e_n by simp
  have all: "list_all is_ident_char (take (e - p) (drop p lin)) \<longleftrightarrow> ie = e"
  proof
    assume a: "list_all is_ident_char (take (e - p) (drop p lin))"
    show "ie = e"
    proof (rule ccontr)
      assume "ie \<noteq> e"
      with ie_e have lt: "ie < e" by simp
      with e_n have "ie < ?n" by simp
      then have "\<not> is_ident_char (lin ! ie)" by (rule ie_out)
      moreover have "ie - p < e - p" using lt pie by simp
      then have "is_ident_char (take (e - p) (drop p lin) ! (ie - p))"
        using a len by (simp add: list_all_length)
      then have "is_ident_char (lin ! ie)" using nth [of "ie - p"] lt pie by simp
      ultimately show False by simp
    qed
  next
    assume eq: "ie = e"
    have "is_ident_char (lin ! (p + j))" if "j < e - p" for j
    proof (cases j)
      case 0
      then show ?thesis using start by (simp add: ident_start_char)
    next
      case (Suc j')
      then show ?thesis using that eq by (intro ie_in) simp_all
    qed
    then show "list_all is_ident_char (take (e - p) (drop p lin))"
      using len nth by (simp add: list_all_length)
  qed
  have up: "rev [p + 1..<ie + 1] = ie # rev [p + 1..<ie]" using pie by simp
  have fnone: "find (boundary uw lin) (rev [p + 1..<ie]) = None"
    using inner by (simp add: find_None_iff)
  have "match_at uw lin p = find (boundary uw lin) (rev [p + 1..<ie + 1])"
    using bp p start by (simp add: match_at_def ie_def Let_def)
  also have "\<dots> = (if ie = e then Some ie else None)"
    unfolding up using b_ie fnone by simp
  finally show ?thesis using start all by (simp add: e_def [symmetric])
qed

lemma run_end_step:
  assumes "p < length lin" "is_word uw (lin ! p)"
  shows "run_end uw lin (p + 1) = run_end uw lin p"
  using assms by (simp add: run_end_def Cons_nth_drop_Suc [symmetric])

lemma run_end_stop:
  assumes "length lin \<le> p \<or> \<not> is_word uw (lin ! p)"
  shows "run_end uw lin p = p"
proof (cases "p < length lin")
  case True
  with assms show ?thesis by (simp add: run_end_def Cons_nth_drop_Suc [symmetric])
next
  case False
  then show ?thesis by (simp add: run_end_def)
qed

lemma finditer_skip:
  "0 < q \<Longrightarrow> q \<le> length lin \<Longrightarrow> is_word uw (lin ! (q - 1)) \<Longrightarrow>
     finditer_from uw lin q = finditer_from uw lin (run_end uw lin q)"
proof (induction "length lin - q" arbitrary: q rule: less_induct)
  case less
  show ?case
  proof (cases "q < length lin \<and> is_word uw (lin ! q)")
    case False
    then have "run_end uw lin q = q" by (intro run_end_stop) auto
    then show ?thesis by simp
  next
    case True
    then have lt: "q < length lin" and w: "is_word uw (lin ! q)" by simp_all
    have m: "match_at uw lin q = None"
      using less.prems lt w by (intro match_at_inside) simp_all
    have "length lin - (q + 1) < length lin - q" using lt by linarith
    then have "finditer_from uw lin (q + 1) = finditer_from uw lin (run_end uw lin (q + 1))"
      by (rule less.hyps) (use lt w in simp_all)
    moreover have "run_end uw lin (q + 1) = run_end uw lin q"
      using True by (intro run_end_step) simp_all
    moreover have "finditer_from uw lin q = finditer_from uw lin (q + 1)"
      using True m by (subst finditer_from.simps) simp
    ultimately show ?thesis by simp
  qed
qed

lemma finditer_word_run:
  "p = 0 \<or> length lin \<le> p \<or> \<not> is_word uw (lin ! (p - 1)) \<or> \<not> is_word uw (lin ! p) \<Longrightarrow>
     finditer_from uw lin p = word_run_tokens_from uw lin p"
proof (induction "length lin + 1 - p" arbitrary: p rule: less_induct)
  case less
  show ?case
  proof (cases "p < length lin")
    case False
    then have a: "word_run_tokens_from uw lin p = []"
      by (subst word_run_tokens_from.simps) simp
    have n: "match_at uw lin p = None" using False by (intro match_at_nonword) simp
    have "finditer_from uw lin (p + 1) = []"
      using False by (subst finditer_from.simps) simp
    then have "finditer_from uw lin p = []"
      using n by (subst finditer_from.simps) simp
    with a show ?thesis by simp
  next
    case lt: True
    show ?thesis
    proof (cases "is_word uw (lin ! p)")
      case False
      then have n: "match_at uw lin p = None" by (intro match_at_nonword) simp
      have "length lin + 1 - (p + 1) < length lin + 1 - p" using lt by linarith
      then have "finditer_from uw lin (p + 1) = word_run_tokens_from uw lin (p + 1)"
        by (rule less.hyps) (use False in simp)
      moreover have "finditer_from uw lin p = finditer_from uw lin (p + 1)"
        using lt n by (subst finditer_from.simps) simp
      moreover have "word_run_tokens_from uw lin p = word_run_tokens_from uw lin (p + 1)"
        using lt False by (subst word_run_tokens_from.simps) simp
      ultimately show ?thesis by simp
    next
      case w: True
      with less.prems lt have st: "p = 0 \<or> \<not> is_word uw (lin ! (p - 1))" by auto
      let ?e = "run_end uw lin p"
      let ?run = "take (?e - p) (drop p lin)"
      let ?ok = "is_ident_start (lin ! p) \<and> list_all is_ident_char ?run"
      have pe: "p < ?e" using lt w by (rule run_end_gt)
      have e_n: "?e \<le> length lin"
        unfolding run_end_def using takeWhile_pos(1) [of p lin "is_word uw"] lt by simp
      have e_out: "length lin \<le> ?e \<or> \<not> is_word uw (lin ! ?e)"
        unfolding run_end_def using takeWhile_pos(3) [of p lin "is_word uw"] lt by auto
      have m: "match_at uw lin p = (if ?ok then Some ?e else None)"
        by (rule match_at_start [OF lt w st])
      have "length lin + 1 - ?e < length lin + 1 - p" using pe e_n by linarith
      then have rest: "finditer_from uw lin ?e = word_run_tokens_from uw lin ?e"
        by (rule less.hyps) (use e_out in auto)
      have wr: "word_run_tokens_from uw lin p =
          (if ?ok then [(?run, p)] else []) @ word_run_tokens_from uw lin ?e"
        using lt w by (subst word_run_tokens_from.simps) (simp add: Let_def)
      show ?thesis
      proof (cases ?ok)
        case True
        then have "finditer_from uw lin p = (?run, p) # finditer_from uw lin ?e"
          using lt m by (subst finditer_from.simps) simp
        with True wr rest show ?thesis by simp
      next
        case False
        from m False have m': "match_at uw lin p = None" by (simp only: if_False)
        have "finditer_from uw lin p = finditer_from uw lin (p + 1)"
          using lt m' by (subst finditer_from.simps) simp
        also have "\<dots> = finditer_from uw lin (run_end uw lin (p + 1))"
          using lt w by (intro finditer_skip) simp_all
        also have "run_end uw lin (p + 1) = ?e" using lt w by (rule run_end_step)
        finally have "finditer_from uw lin p = finditer_from uw lin ?e" .
        moreover from wr False have "word_run_tokens_from uw lin p = word_run_tokens_from uw lin ?e"
          by (simp only: if_False append_Nil)
        ultimately show ?thesis using rest by simp
      qed
    qed
  qed
qed

lemma iter_identifiers_word_runs:
  "iter_identifiers_with_pos uw text = word_run_identifiers uw text"
  by (simp add: iter_identifiers_with_pos_def word_run_identifiers_def finditer_word_run)

text \<open>
  Claim C3, as amended. For every text the tokenizer yields, line by line and from left
  to right, exactly the maximal runs of word characters that start with a letter or
  underscore and consist of letters, digits and underscores, each with its 1-based line
  and the 1-based column of its first character; a run that starts with a digit yields
  nothing, not even its identifier-shaped tail. Tokenizing \<^verbatim>\<open>foo_bar2 BAR\<close> yields
  \<^verbatim>\<open>("foo_bar2",1,1)\<close> and \<^verbatim>\<open>("BAR",1,10)\<close>.
\<close>

theorem tokenizer_word_runs:
  "iter_identifiers_with_pos uw text = word_run_identifiers uw text \<and>
   iter_identifiers_with_pos uw ''foo_bar2 BAR'' = [(''foo_bar2'', 1, 1), (''BAR'', 1, 10)]"
proof
  show "iter_identifiers_with_pos uw text = word_run_identifiers uw text"
    by (rule iter_identifiers_word_runs)
  show "iter_identifiers_with_pos uw ''foo_bar2 BAR'' = [(''foo_bar2'', 1, 1), (''BAR'', 1, 10)]"
    by code_simp
qed

text \<open>
  The claim as the specification states it fails on \<^verbatim>\<open>2abc\<close>: \<^verbatim>\<open>abc\<close> is a maximal run
  of the stated shape, at column 2, and the tokenizer yields nothing, because there is
  no word boundary between \<^verbatim>\<open>2\<close> and \<^verbatim>\<open>a\<close>. (The text is ASCII, so the choice of the
  parameter \<open>uw\<close> plays no role.)
\<close>

theorem tokenizer_counterexample:
  "iter_identifiers_with_pos is_ident_char ''2abc'' = [] \<and>
   spec_identifiers ''2abc'' = [(''abc'', 1, 2)] \<and>
   iter_identifiers_with_pos is_ident_char ''2abc'' \<noteq> spec_identifiers ''2abc''"
  by code_simp

section \<open>Properties of the scans and the commands\<close>

subsection \<open>What the near scan records\<close>

lemma if_chain_case:
  "(case (if A then None else if B then None else if C then None
          else if E then Some x else None) of
      None \<Rightarrow> y | Some d \<Rightarrow> R d) =
   (if A then y else if B then y else if C then y else if E then R x else y)"
  by simp

lemma near_token_dist:
  "near_token rp ncmp max_dist ci sfc ign cap (tok, ln, cl) out =
     (case near_dist ncmp max_dist ci sfc ign tok of
        None \<Rightarrow> out
      | Some d \<Rightarrow> near_record rp cap d tok ln cl out)"
  unfolding near_token_def near_dist_def Let_def prod.case
  by (rule if_chain_case [symmetric])

lemma near_lookup_Nil: "near_lookup [] d tok = None"
  by (simp add: near_lookup_def)

lemma near_lookup_update:
  "near_lookup (AList.update d (AList.update tok a (case map_of out d of None \<Rightarrow> [] | Some b \<Rightarrow> b)) out)
       d' tok' =
     (if d' = d \<and> tok' = tok then Some a else near_lookup out d' tok')"
  by (auto simp: near_lookup_def update_conv' split: option.splits)

lemma near_lookup_record:
  "near_lookup (near_record rp cap d tok ln cl out) d' tok' =
     (if d' = d \<and> tok' = tok
      then Some (add_occ cap \<lparr>path = rp, line = ln, col = cl\<rparr>
                   (case near_lookup out d tok of
                      None \<Rightarrow> \<lparr>token = tok, count = 0, locs = []\<rparr>
                    | Some a \<Rightarrow> a))
      else near_lookup out d' tok')"
proof -
  let ?bucket = "case map_of out d of None \<Rightarrow> [] | Some b \<Rightarrow> b"
  have b: "map_of ?bucket tok = near_lookup out d tok"
    by (simp add: near_lookup_def split: option.splits)
  show ?thesis
    unfolding near_record_def Let_def near_lookup_update b
    by (simp add: add_occ_def split: option.splits)
qed

lemma near_fold_lookup:
  "near_lookup (fold (near_token rp ncmp max_dist ci sfc ign cap) toks out) d tok =
     fold_occ cap tok (map (occ_of rp) (near_hits ncmp max_dist ci sfc ign d tok toks))
       (near_lookup out d tok)"
proof (induction toks arbitrary: out)
  case Nil
  show ?case by (simp add: near_hits_def)
next
  case (Cons t toks)
  obtain tk ln cl where t: "t = (tk, ln, cl)" by (cases t)
  let ?out = "near_token rp ncmp max_dist ci sfc ign cap t out"
  have step: "near_lookup ?out d tok =
      (if tk = tok \<and> near_dist ncmp max_dist ci sfc ign tk = Some d
       then Some (add_occ cap (occ_of rp t)
                    (case near_lookup out d tok of
                       None \<Rightarrow> \<lparr>token = tok, count = 0, locs = []\<rparr>
                     | Some a \<Rightarrow> a))
       else near_lookup out d tok)"
    unfolding t near_token_dist
    by (cases "near_dist ncmp max_dist ci sfc ign tk")
       (auto simp: near_lookup_record occ_of_def)
  have ih: "near_lookup (fold (near_token rp ncmp max_dist ci sfc ign cap) (t # toks) out) d tok =
        fold_occ cap tok (map (occ_of rp) (near_hits ncmp max_dist ci sfc ign d tok toks))
          (near_lookup ?out d tok)"
    using Cons.IH [of ?out] by simp
  show ?case
  proof (cases "tk = tok \<and> near_dist ncmp max_dist ci sfc ign tk = Some d")
    case True
    then have h: "near_hits ncmp max_dist ci sfc ign d tok (t # toks) =
        t # near_hits ncmp max_dist ci sfc ign d tok toks"
      by (auto simp: near_hits_def t)
    from True have e1: "tk = tok" and e2: "near_dist ncmp max_dist ci sfc ign tok = Some d"
      by auto
    from step e1 e2 have "near_lookup ?out d tok =
        Some (add_occ cap (occ_of rp t)
                    (case near_lookup out d tok of
                       None \<Rightarrow> \<lparr>token = tok, count = 0, locs = []\<rparr>
                     | Some a \<Rightarrow> a))"
      by simp
    then show ?thesis unfolding ih h by simp
  next
    case False
    then have h: "near_hits ncmp max_dist ci sfc ign d tok (t # toks) =
        near_hits ncmp max_dist ci sfc ign d tok toks"
      by (auto simp: near_hits_def t)
    from False step have "near_lookup ?out d tok = near_lookup out d tok"
      by auto
    then show ?thesis unfolding ih h by simp
  qed
qed

lemma cap_take_snoc:
  "cap_take cap (xs @ [x]) =
     (if cap = 0 \<or> int (length (cap_take cap xs)) < cap then cap_take cap xs @ [x]
      else cap_take cap xs)"
  by (auto simp: cap_take_def min_def take_Suc_conv_app_nth nat_less_iff)

lemma fold_occ_Some:
  "fold_occ cap tok ocs (Some \<lparr>token = tok, count = int (length prev), locs = cap_take cap prev\<rparr>) =
     Some \<lparr>token = tok, count = int (length (prev @ ocs)), locs = cap_take cap (prev @ ocs)\<rparr>"
proof (induction ocs arbitrary: prev)
  case Nil
  show ?case by simp
next
  case (Cons oc ocs)
  have "add_occ cap oc \<lparr>token = tok, count = int (length prev), locs = cap_take cap prev\<rparr> =
        \<lparr>token = tok, count = int (length (prev @ [oc])), locs = cap_take cap (prev @ [oc])\<rparr>"
    by (simp add: add_occ_def cap_take_snoc)
  then show ?case using Cons.IH [of "prev @ [oc]"] by simp
qed

lemma fold_occ_None:
  "fold_occ cap tok ocs None =
     (if ocs = [] then None
      else Some \<lparr>token = tok, count = int (length ocs), locs = cap_take cap ocs\<rparr>)"
proof (cases ocs)
  case Nil
  then show ?thesis by simp
next
  case (Cons oc ocs')
  have e: "\<lparr>token = tok, count = 0, locs = []\<rparr> =
           \<lparr>token = tok, count = int (length ([] :: Occurrence list)),
            locs = cap_take cap ([] :: Occurrence list)\<rparr>"
    by (simp add: cap_take_def)
  have "fold_occ cap tok ocs None =
        fold_occ cap tok ocs (Some \<lparr>token = tok, count = 0, locs = []\<rparr>)"
    by (simp add: Cons)
  also have "\<dots> = Some \<lparr>token = tok, count = int (length ([] @ ocs)), locs = cap_take cap ([] @ ocs)\<rparr>"
    unfolding e by (rule fold_occ_Some)
  finally show ?thesis by (simp add: Cons)
qed

lemma scan_file_near_lookup:
  "near_lookup (scan_file_near uw (Some text) rp needle max_dist ci sfc ignore_tokens cap mask_flag)
       d tok =
     (let ocs = map (occ_of rp)
                  (near_hits (if ci then lower needle else needle) max_dist ci sfc
                     (set (map (\<lambda>t. if ci then lower t else t) ignore_tokens)) d tok
                     (iter_identifiers_with_pos uw
                        (if mask_flag then mask_cpp_comments_and_strings text else text)))
      in if ocs = [] then None
         else Some \<lparr>token = tok, count = int (length ocs), locs = cap_take cap ocs\<rparr>)"
  by (simp add: scan_file_near_def Let_def near_fold_lookup near_lookup_Nil fold_occ_None)

subsection \<open>Merging per-file results\<close>

lemma set_update_subset: "set (AList.update k v al) \<subseteq> insert (k, v) (set al)"
  by (induction al) auto

lemma near_wf_Nil: "near_wf []"
  by (simp add: near_wf_def)

lemma near_wf_update:
  assumes "near_wf r" "distinct (map fst b)"
  shows "near_wf (AList.update d b r)"
  unfolding near_wf_def
proof (intro conjI allI impI)
  show "distinct (map fst (AList.update d b r))"
    using assms(1) by (simp add: near_wf_def distinct_update)
next
  fix d' b' assume "(d', b') \<in> set (AList.update d b r)"
  with set_update_subset [of d b r] have "(d', b') = (d, b) \<or> (d', b') \<in> set r" by auto
  then show "distinct (map fst b')"
  proof
    assume "(d', b') = (d, b)"
    with assms(2) show ?thesis by simp
  next
    assume "(d', b') \<in> set r"
    with assms(1) show ?thesis unfolding near_wf_def by blast
  qed
qed

lemma near_wf_bucket:
  assumes "near_wf r"
  shows "distinct (map fst (case map_of r d of None \<Rightarrow> [] | Some b \<Rightarrow> b))"
proof (cases "map_of r d")
  case None
  then show ?thesis by simp
next
  case (Some b)
  then have "(d, b) \<in> set r" by (rule map_of_SomeD)
  with assms have "distinct (map fst b)" unfolding near_wf_def by blast
  with Some show ?thesis by simp
qed

lemma near_wf_record: "near_wf out \<Longrightarrow> near_wf (near_record rp cap d tok ln cl out)"
  unfolding near_record_def Let_def
  by (intro near_wf_update distinct_update near_wf_bucket)

lemma near_wf_token: "near_wf out \<Longrightarrow> near_wf (near_token rp ncmp max_dist ci sfc ign cap t out)"
  by (cases t) (simp add: near_token_dist near_wf_record split: option.splits)

lemma near_wf_fold:
  "near_wf out \<Longrightarrow> near_wf (fold (near_token rp ncmp max_dist ci sfc ign cap) toks out)"
  by (induction toks arbitrary: out) (simp_all add: near_wf_token)

lemma near_wf_scan:
  "near_wf (scan_file_near uw loaded rp needle max_dist ci sfc ignore_tokens cap mask_flag)"
  by (cases loaded) (simp_all add: scan_file_near_def Let_def near_wf_Nil near_wf_fold)

lemma map_of_merge_token:
  "map_of (near_merge_token cap (tok, a) bucket) tok' =
     (if tok' = tok then Some (near_combine cap (map_of bucket tok) tok a)
      else map_of bucket tok')"
  by (simp add: near_merge_token_def near_combine_def update_conv' Let_def split: option.splits)

lemma map_of_fold_merge_token:
  "distinct (map fst tm) \<Longrightarrow>
     map_of (fold (near_merge_token cap) tm bucket) tok =
       (case map_of tm tok of
          None \<Rightarrow> map_of bucket tok
        | Some a \<Rightarrow> Some (near_combine cap (map_of bucket tok) tok a))"
proof (induction tm arbitrary: bucket)
  case Nil
  show ?case by simp
next
  case (Cons ta tm)
  obtain t a where ta: "ta = (t, a)" by (cases ta)
  from Cons.prems have d: "distinct (map fst tm)" and nt: "t \<notin> fst ` set tm"
    by (simp_all add: ta)
  have ih: "map_of (fold (near_merge_token cap) tm (near_merge_token cap (t, a) bucket)) tok =
       (case map_of tm tok of
          None \<Rightarrow> map_of (near_merge_token cap (t, a) bucket) tok
        | Some a' \<Rightarrow> Some (near_combine cap (map_of (near_merge_token cap (t, a) bucket) tok) tok a'))"
    by (rule Cons.IH [OF d])
  have unf: "fold (near_merge_token cap) (ta # tm) bucket =
      fold (near_merge_token cap) tm (near_merge_token cap (t, a) bucket)"
    by (simp add: ta)
  show ?case
  proof (cases "tok = t")
    case True
    with nt have n: "map_of tm tok = None" by (simp add: map_of_eq_None_iff)
    have h: "map_of (ta # tm) tok = Some a" by (simp add: ta True)
    have m: "map_of (near_merge_token cap (t, a) bucket) tok =
               Some (near_combine cap (map_of bucket tok) tok a)"
      by (simp add: map_of_merge_token True)
    show ?thesis unfolding unf ih n h m by simp
  next
    case False
    then have h: "map_of (ta # tm) tok = map_of tm tok" by (simp add: ta)
    have m: "map_of (near_merge_token cap (t, a) bucket) tok = map_of bucket tok"
      using False by (simp add: map_of_merge_token)
    show ?thesis unfolding unf ih h m by simp
  qed
qed

lemma near_lookup_merge_bucket:
  assumes "distinct (map fst tm)"
  shows "near_lookup (near_merge_bucket cap (d, tm) agg) d' tok =
     (if d' = d then
        (case map_of tm tok of
           None \<Rightarrow> near_lookup agg d tok
         | Some a \<Rightarrow> Some (near_combine cap (near_lookup agg d tok) tok a))
      else near_lookup agg d' tok)"
proof -
  let ?bucket = "case map_of agg d of None \<Rightarrow> [] | Some b \<Rightarrow> b"
  have b: "map_of ?bucket tok = near_lookup agg d tok"
    by (simp add: near_lookup_def split: option.splits)
  have l: "near_lookup (AList.update d X agg) d' tok =
             (if d' = d then map_of X tok else near_lookup agg d' tok)" for X
    by (simp add: near_lookup_def update_conv')
  show ?thesis
    unfolding near_merge_bucket_def Let_def prod.case l map_of_fold_merge_token [OF assms] b
    by (rule refl)
qed

lemma near_lookup_merge_partial:
  "near_wf p \<Longrightarrow>
     near_lookup (near_merge_partial cap p agg) d tok =
       (case near_lookup p d tok of
          None \<Rightarrow> near_lookup agg d tok
        | Some a \<Rightarrow> Some (near_combine cap (near_lookup agg d tok) tok a))"
proof (induction p arbitrary: agg)
  case Nil
  show ?case by (simp add: near_merge_partial_def near_lookup_Nil)
next
  case (Cons dm p)
  obtain d0 tm where dm: "dm = (d0, tm)" by (cases dm)
  from Cons.prems have wf: "near_wf p" and dtm: "distinct (map fst tm)"
    and nd: "d0 \<notin> fst ` set p"
    unfolding near_wf_def dm by auto
  let ?agg = "near_merge_bucket cap (d0, tm) agg"
  have ih: "near_lookup (near_merge_partial cap p ?agg) d tok =
       (case near_lookup p d tok of
          None \<Rightarrow> near_lookup ?agg d tok
        | Some a \<Rightarrow> Some (near_combine cap (near_lookup ?agg d tok) tok a))"
    by (rule Cons.IH [OF wf])
  have unf: "near_merge_partial cap (dm # p) agg = near_merge_partial cap p ?agg"
    by (simp add: near_merge_partial_def dm)
  show ?case
  proof (cases "d = d0")
    case True
    from nd have "map_of p d0 = None" by (simp add: map_of_eq_None_iff)
    then have pn: "near_lookup p d0 tok = None" by (simp add: near_lookup_def)
    have hd: "near_lookup (dm # p) d0 tok = map_of tm tok"
      by (simp add: near_lookup_def dm)
    show ?thesis
      unfolding unf True ih [unfolded True] pn hd
      by (simp add: near_lookup_merge_bucket [OF dtm])
  next
    case False
    then have hd: "near_lookup (dm # p) d tok = near_lookup p d tok"
      by (simp add: near_lookup_def dm)
    have m: "near_lookup ?agg d tok = near_lookup agg d tok"
      using False by (simp add: near_lookup_merge_bucket [OF dtm])
    show ?thesis unfolding unf ih hd m by (rule refl)
  qed
qed

lemma count_near_combine:
  "count (near_combine cap x tok a) = (case x of None \<Rightarrow> 0 | Some cur \<Rightarrow> count cur) + count a"
  by (simp add: near_combine_def Let_def split: option.splits)

lemma near_count_merge_partial:
  "near_wf p \<Longrightarrow>
     near_count (near_merge_partial cap p agg) d tok = near_count agg d tok + near_count p d tok"
  by (simp add: near_count_def near_lookup_merge_partial count_near_combine split: option.splits)

lemma near_count_fold_merge:
  "(\<And>p. p \<in> set ps \<Longrightarrow> near_wf p) \<Longrightarrow>
     near_count (fold (near_merge_partial cap) ps agg) d tok =
       near_count agg d tok + sum_list (map (\<lambda>p. near_count p d tok) ps)"
proof (induction ps arbitrary: agg)
  case Nil
  show ?case by simp
next
  case (Cons p ps)
  have "near_count (fold (near_merge_partial cap) ps (near_merge_partial cap p agg)) d tok =
        near_count (near_merge_partial cap p agg) d tok + sum_list (map (\<lambda>p. near_count p d tok) ps)"
    using Cons.prems by (intro Cons.IH) simp
  then show ?case using Cons.prems by (simp add: near_count_merge_partial)
qed

lemma capped_Nil: "capped cap []"
  by (simp add: capped_def cap_take_def)

lemma capped_cap_take: "capped cap (cap_take cap xs)"
  by (simp add: capped_def cap_take_def)

lemma cap_take_append_capped:
  "cap_take cap (cap_take cap xs @ ys) = cap_take cap (xs @ ys)"
  by (auto simp: cap_take_def min_def take_all_iff)

lemma locs_near_combine:
  assumes "capped cap (case x of None \<Rightarrow> [] | Some cur \<Rightarrow> locs cur)" "capped cap (locs a)"
  shows "locs (near_combine cap x tok a) =
           cap_take cap ((case x of None \<Rightarrow> [] | Some cur \<Rightarrow> locs cur) @ locs a)"
proof (cases x)
  case None
  with assms(2) show ?thesis by (simp add: near_combine_def capped_def)
next
  case (Some cur)
  with assms(1) have c: "cap_take cap (locs cur) = locs cur" by (simp add: capped_def)
  show ?thesis
  proof (cases "cap = 0")
    case True
    then show ?thesis by (simp add: Some near_combine_def cap_take_def)
  next
    case nz: False
    show ?thesis
    proof (cases "cap - int (length (locs cur)) > 0")
      case True
      then have "length (locs cur) \<le> nat cap" by simp
      moreover have "nat (cap - int (length (locs cur))) = nat cap - length (locs cur)" by simp
      ultimately show ?thesis
        using nz True by (simp add: Some near_combine_def cap_take_def Let_def)
    next
      case False
      from c nz have "take (nat cap) (locs cur) = locs cur" by (simp add: cap_take_def)
      moreover from False have "nat cap \<le> length (locs cur)" by simp
      ultimately show ?thesis
        using nz False by (simp add: Some near_combine_def cap_take_def Let_def)
    qed
  qed
qed

lemma near_locs_merge_partial:
  assumes "near_wf p" "capped cap (near_locs agg d tok)" "capped cap (near_locs p d tok)"
  shows "near_locs (near_merge_partial cap p agg) d tok =
           cap_take cap (near_locs agg d tok @ near_locs p d tok)"
proof (cases "near_lookup p d tok")
  case None
  with assms(2) show ?thesis
    by (simp add: near_locs_def near_lookup_merge_partial [OF assms(1)] capped_def)
next
  case (Some a)
  have "locs (near_combine cap (near_lookup agg d tok) tok a) =
          cap_take cap ((case near_lookup agg d tok of None \<Rightarrow> [] | Some cur \<Rightarrow> locs cur) @ locs a)"
    using assms(2,3) Some by (intro locs_near_combine) (simp_all add: near_locs_def)
  then show ?thesis
    by (simp add: near_locs_def near_lookup_merge_partial [OF assms(1)] Some)
qed

lemma near_locs_fold_merge:
  "(\<And>p. p \<in> set ps \<Longrightarrow> near_wf p \<and> capped cap (near_locs p d tok)) \<Longrightarrow>
   capped cap (near_locs agg d tok) \<Longrightarrow>
     near_locs (fold (near_merge_partial cap) ps agg) d tok =
       cap_take cap (near_locs agg d tok @ concat (map (\<lambda>p. near_locs p d tok) ps))"
proof (induction ps arbitrary: agg)
  case Nil
  then show ?case by (simp add: capped_def)
next
  case (Cons p ps)
  from Cons.prems(1) [of p] have wf: "near_wf p" and cp: "capped cap (near_locs p d tok)"
    by simp_all
  let ?agg = "near_merge_partial cap p agg"
  have m: "near_locs ?agg d tok = cap_take cap (near_locs agg d tok @ near_locs p d tok)"
    by (rule near_locs_merge_partial [OF wf Cons.prems(2) cp])
  then have c: "capped cap (near_locs ?agg d tok)" by (simp add: capped_cap_take)
  have "near_locs (fold (near_merge_partial cap) ps ?agg) d tok =
       cap_take cap (near_locs ?agg d tok @ concat (map (\<lambda>p. near_locs p d tok) ps))"
    using Cons.prems(1) c by (intro Cons.IH) simp_all
  then show ?case unfolding m by (simp add: cap_take_append_capped)
qed

lemma capped_scan:
  "capped cap (near_locs (scan_file_near uw loaded rp needle max_dist ci sfc ignore_tokens cap mask_flag)
                 d tok)"
proof (cases loaded)
  case None
  then show ?thesis by (simp add: scan_file_near_def near_locs_def near_lookup_Nil capped_Nil)
next
  case (Some src)
  show ?thesis
    unfolding Some near_locs_def scan_file_near_lookup Let_def
    by (simp add: capped_Nil capped_cap_take)
qed

text \<open>
  Claim C4. After the aggregator of the near mode has merged the per-file results, the
  count of every (distance, token) pair is the sum of its per-file counts, whatever the
  cap; when the cap is positive the merged occurrence list has at most cap elements (it
  is the first cap elements of the concatenated per-file lists); and when the cap is 0
  the occurrence lists are concatenated in full.
\<close>

theorem near_merge_counts_and_cap:
  "near_count (cmd_near_agg uw files needle max_dist ci sfc ign cap mask_flag) d tok =
     sum_list (map (\<lambda>p. near_count p d tok)
                 (cmd_near_partials uw files needle max_dist ci sfc ign cap mask_flag)) \<and>
   (0 < cap \<longrightarrow>
      int (length (near_locs (cmd_near_agg uw files needle max_dist ci sfc ign cap mask_flag) d tok))
        \<le> cap \<and>
      near_locs (cmd_near_agg uw files needle max_dist ci sfc ign cap mask_flag) d tok =
        take (nat cap)
          (concat (map (\<lambda>p. near_locs p d tok)
                     (cmd_near_partials uw files needle max_dist ci sfc ign cap mask_flag)))) \<and>
   (cap = 0 \<longrightarrow>
      near_locs (cmd_near_agg uw files needle max_dist ci sfc ign cap mask_flag) d tok =
        concat (map (\<lambda>p. near_locs p d tok)
                  (cmd_near_partials uw files needle max_dist ci sfc ign cap mask_flag)))"
proof -
  let ?ps = "cmd_near_partials uw files needle max_dist ci sfc ign cap mask_flag"
  let ?agg = "cmd_near_agg uw files needle max_dist ci sfc ign cap mask_flag"
  have wf: "near_wf p \<and> capped cap (near_locs p d tok)" if "p \<in> set ?ps" for p
    using that by (auto simp: cmd_near_partials_def near_wf_scan capped_scan)
  have agg: "?agg = fold (near_merge_partial cap) ?ps []"
    by (simp add: cmd_near_agg_def)
  have "near_count ?agg d tok = near_count [] d tok + sum_list (map (\<lambda>p. near_count p d tok) ?ps)"
    unfolding agg using wf by (intro near_count_fold_merge) simp
  then have c: "near_count ?agg d tok = sum_list (map (\<lambda>p. near_count p d tok) ?ps)"
    by (simp add: near_count_def near_lookup_Nil)
  have "near_locs ?agg d tok =
      cap_take cap (near_locs [] d tok @ concat (map (\<lambda>p. near_locs p d tok) ?ps))"
    unfolding agg using wf
    by (intro near_locs_fold_merge) (simp_all add: near_locs_def near_lookup_Nil capped_Nil)
  then have l: "near_locs ?agg d tok = cap_take cap (concat (map (\<lambda>p. near_locs p d tok) ?ps))"
    by (simp add: near_locs_def near_lookup_Nil)
  have l0: "cap = 0 \<longrightarrow> near_locs ?agg d tok = concat (map (\<lambda>p. near_locs p d tok) ?ps)"
    unfolding l by (simp add: cap_take_def)
  have l1: "0 < cap \<longrightarrow> near_locs ?agg d tok = take (nat cap) (concat (map (\<lambda>p. near_locs p d tok) ?ps))"
    unfolding l by (simp add: cap_take_def)
  have l2: "0 < cap \<longrightarrow> int (length (near_locs ?agg d tok)) \<le> cap"
    unfolding l by (auto simp: cap_take_def)
  from c l0 l1 l2 show ?thesis by blast
qed

theorem near_merge_counts_and_cap_witness:
  "(0::int) < 3 \<and>
   near_count (cmd_near_agg ascii_only
       [(''a.c'', Some ''Root Rot Root''), (''b.c'', None), (''c.c'', Some ''Root Root'')]
       ''Root'' 1 False False [] 3 True) 0 ''Root'' = 4 \<and>
   length (near_locs (cmd_near_agg ascii_only
       [(''a.c'', Some ''Root Rot Root''), (''b.c'', None), (''c.c'', Some ''Root Root'')]
       ''Root'' 1 False False [] 3 True) 0 ''Root'') = 3 \<and>
   length (near_locs (cmd_near_agg ascii_only
       [(''a.c'', Some ''Root Rot Root''), (''b.c'', None), (''c.c'', Some ''Root Root'')]
       ''Root'' 1 False False [] 0 True) 0 ''Root'') = 4"
proof -
  let ?files = "[(''a.c'', Some ''Root Rot Root''), (''b.c'', None), (''c.c'', Some ''Root Root'')]"
  have p3: "map (\<lambda>p. near_count p 0 ''Root'')
              (cmd_near_partials ascii_only ?files ''Root'' 1 False False [] 3 True) = [2, 0, 2]"
    by code_simp
  have l3: "map (\<lambda>p. length (near_locs p 0 ''Root''))
              (cmd_near_partials ascii_only ?files ''Root'' 1 False False [] 3 True) = [2, 0, 2]"
    by code_simp
  have l0: "map (\<lambda>p. length (near_locs p 0 ''Root''))
              (cmd_near_partials ascii_only ?files ''Root'' 1 False False [] 0 True) = [2, 0, 2]"
    by code_simp
  have len: "length (concat (map f ps)) = sum_list (map (\<lambda>p. length (f p)) ps)" for f :: "near_result \<Rightarrow> Occurrence list" and ps
    by (simp add: length_concat comp_def)
  from near_merge_counts_and_cap [of ascii_only ?files "''Root''" 1 False False "[]" 3 True 0 "''Root''"]
    near_merge_counts_and_cap [of ascii_only ?files "''Root''" 1 False False "[]" 0 True 0 "''Root''"]
  show ?thesis
    by (simp add: p3 len l3 l0)
qed

subsection \<open>Case-insensitive near scan\<close>

lemma near_dist_True:
  "near_dist (lower needle) max_dist True sfc (set (map lower ignore_tokens)) t = Some d \<longleftrightarrow>
     lower t \<notin> set (map lower ignore_tokens) \<and>
     (if sfc then lower t \<noteq> [] \<and> lower needle \<noteq> [] \<and> hd (lower t) = hd (lower needle) else True) \<and>
     \<bar>int (length (lower t)) - int (length (lower needle))\<bar> \<le> max_dist \<and>
     bounded_levenshtein (lower t) (lower needle) max_dist = d \<and> d \<le> max_dist"
  unfolding near_dist_def Let_def by (cases sfc) auto

text \<open>
  Claim C10. With \<^verbatim>\<open>case_insensitive\<close> on, the entry of the near scan for a token text
  \<open>tok\<close> in the bucket of distance \<open>d\<close> counts exactly the occurrences whose original
  text is \<open>tok\<close> and whose lowercased text passes the ignore-set test, the
  first-character filter and the length filter and has distance \<open>d\<close> from the lowercased
  needle. The key and the stored token are the original text, so tokens that differ
  only in letter case have separate entries, counts and occurrence lists in the same
  bucket: \<^verbatim>\<open>Root root Root\<close> scanned for \<^verbatim>\<open>ROOT\<close> gives the entries \<^verbatim>\<open>Root\<close> (count 2)
  and \<^verbatim>\<open>root\<close> (count 1) in bucket 0.
\<close>

theorem near_scan_case_insensitive:
  "near_lookup (scan_file_near uw (Some src) rp needle max_dist True sfc ignore_tokens cap mask_flag)
       d tok =
     (let toks = iter_identifiers_with_pos uw
                   (if mask_flag then mask_cpp_comments_and_strings src else src);
          hits = filter (\<lambda>t. fst t = tok \<and>
                    lower (fst t) \<notin> set (map lower ignore_tokens) \<and>
                    (if sfc then lower (fst t) \<noteq> [] \<and> lower needle \<noteq> [] \<and>
                                 hd (lower (fst t)) = hd (lower needle)
                     else True) \<and>
                    \<bar>int (length (lower (fst t))) - int (length (lower needle))\<bar> \<le> max_dist \<and>
                    bounded_levenshtein (lower (fst t)) (lower needle) max_dist = d \<and>
                    d \<le> max_dist) toks;
          ocs = map (\<lambda>t. \<lparr>path = rp, line = fst (snd t), col = snd (snd t)\<rparr>) hits
      in if ocs = [] then None
         else Some \<lparr>token = tok, count = int (length ocs),
                    locs = (if cap = 0 then ocs else take (nat cap) ocs)\<rparr>) \<and>
   scan_file_near uw (Some ''Root root Root'') ''f.cpp'' ''ROOT'' 0 True False [] 20 True =
     [(0, [(''Root'', \<lparr>token = ''Root'', count = 2,
                       locs = [\<lparr>path = ''f.cpp'', line = 1, col = 1\<rparr>,
                               \<lparr>path = ''f.cpp'', line = 1, col = 11\<rparr>]\<rparr>),
           (''root'', \<lparr>token = ''root'', count = 1,
                       locs = [\<lparr>path = ''f.cpp'', line = 1, col = 6\<rparr>]\<rparr>)])]"
proof
  have f: "near_hits (lower needle) max_dist True sfc (set (map lower ignore_tokens)) d tok toks =
        filter (\<lambda>t. fst t = tok \<and>
                    lower (fst t) \<notin> set (map lower ignore_tokens) \<and>
                    (if sfc then lower (fst t) \<noteq> [] \<and> lower needle \<noteq> [] \<and>
                                 hd (lower (fst t)) = hd (lower needle)
                     else True) \<and>
                    \<bar>int (length (lower (fst t))) - int (length (lower needle))\<bar> \<le> max_dist \<and>
                    bounded_levenshtein (lower (fst t)) (lower needle) max_dist = d \<and>
                    d \<le> max_dist) toks" for toks
    unfolding near_hits_def near_dist_True ..
  have o: "occ_of rp = (\<lambda>t. \<lparr>path = rp, line = fst (snd t), col = snd (snd t)\<rparr>)"
    by (rule ext) (simp add: occ_of_def)
  show "near_lookup (scan_file_near uw (Some src) rp needle max_dist True sfc ignore_tokens cap mask_flag)
       d tok =
     (let toks = iter_identifiers_with_pos uw
                   (if mask_flag then mask_cpp_comments_and_strings src else src);
          hits = filter (\<lambda>t. fst t = tok \<and>
                    lower (fst t) \<notin> set (map lower ignore_tokens) \<and>
                    (if sfc then lower (fst t) \<noteq> [] \<and> lower needle \<noteq> [] \<and>
                                 hd (lower (fst t)) = hd (lower needle)
                     else True) \<and>
                    \<bar>int (length (lower (fst t))) - int (length (lower needle))\<bar> \<le> max_dist \<and>
                    bounded_levenshtein (lower (fst t)) (lower needle) max_dist = d \<and>
                    d \<le> max_dist) toks;
          ocs = map (\<lambda>t. \<lparr>path = rp, line = fst (snd t), col = snd (snd t)\<rparr>) hits
      in if ocs = [] then None
         else Some \<lparr>token = tok, count = int (length ocs),
                    locs = (if cap = 0 then ocs else take (nat cap) ocs)\<rparr>)"
    unfolding scan_file_near_lookup Let_def if_True f o cap_take_def ..
  show "scan_file_near uw (Some ''Root root Root'') ''f.cpp'' ''ROOT'' 0 True False [] 20 True =
     [(0, [(''Root'', \<lparr>token = ''Root'', count = 2,
                       locs = [\<lparr>path = ''f.cpp'', line = 1, col = 1\<rparr>,
                               \<lparr>path = ''f.cpp'', line = 1, col = 11\<rparr>]\<rparr>),
           (''root'', \<lparr>token = ''root'', count = 1,
                       locs = [\<lparr>path = ''f.cpp'', line = 1, col = 6\<rparr>]\<rparr>)])]"
    by code_simp
qed

subsection \<open>The compare scan and the compare command\<close>

lemma length_filter_disjoint:
  "(\<And>x. \<not> (P x \<and> Q x)) \<Longrightarrow>
     length (filter P xs) + length (filter Q xs) = length (filter (\<lambda>x. P x \<or> Q x) xs)"
  by (induction xs) auto

lemma compare_token_counts:
  "fst (compare_token rp acmp bcmp ci lpf t st) =
     fst st + (if (if ci then lower (fst t) else fst t) = acmp then 1 else 0) \<and>
   fst (snd (compare_token rp acmp bcmp ci lpf t st)) =
     fst (snd st) + (if (if ci then lower (fst t) else fst t) \<noteq> acmp \<and>
                        (if ci then lower (fst t) else fst t) = bcmp then 1 else 0)"
proof -
  obtain tok ln cl where t: "t = (tok, ln, cl)" by (cases t)
  obtain ca cb la lb where st: "st = (ca, cb, la, lb)" by (cases st)
  show ?thesis
    unfolding t st compare_token_def Let_def prod.case by (cases ci) simp_all
qed

lemma compare_fold_counts:
  "fst (fold (compare_token rp acmp bcmp ci lpf) toks st) =
     fst st + int (length (filter (\<lambda>t. (if ci then lower (fst t) else fst t) = acmp) toks)) \<and>
   fst (snd (fold (compare_token rp acmp bcmp ci lpf) toks st)) =
     fst (snd st) +
       int (length (filter (\<lambda>t. (if ci then lower (fst t) else fst t) \<noteq> acmp \<and>
                                (if ci then lower (fst t) else fst t) = bcmp) toks))"
proof (induction toks arbitrary: st)
  case Nil
  show ?case by simp
next
  case (Cons t toks)
  show ?case
    using Cons.IH [of "compare_token rp acmp bcmp ci lpf t st"]
      compare_token_counts [of rp acmp bcmp ci lpf t st]
    by simp
qed

lemma scan_file_compare_fields:
  "count_a (scan_file_compare uw (Some src) rp a b ci lpf mask_flag) =
     fst (fold (compare_token rp (if ci then lower a else a) (if ci then lower b else b) ci lpf)
            (iter_identifiers_with_pos uw
               (if mask_flag then mask_cpp_comments_and_strings src else src)) (0, 0, [], [])) \<and>
   count_b (scan_file_compare uw (Some src) rp a b ci lpf mask_flag) =
     fst (snd (fold (compare_token rp (if ci then lower a else a) (if ci then lower b else b) ci lpf)
            (iter_identifiers_with_pos uw
               (if mask_flag then mask_cpp_comments_and_strings src else src)) (0, 0, [], [])))"
  unfolding scan_file_compare_def Let_def option.case
  by (simp add: case_prod_beta)

lemma scan_file_compare_diff:
  "diff (scan_file_compare uw loaded rp a b ci lpf mask_flag) =
     count_a (scan_file_compare uw loaded rp a b ci lpf mask_flag) -
     count_b (scan_file_compare uw loaded rp a b ci lpf mask_flag)"
  by (cases loaded) (simp_all add: scan_file_compare_def Let_def case_prod_beta)

text \<open>
  Claim C5. In the compare scan \<open>count_a\<close> is the number of tokens that equal needle A
  (after case normalization) and \<open>count_b\<close> the number of tokens that do not equal A and
  equal B: every token occurrence is counted at most once. Every row of a run and the
  total row satisfy \<open>diff = count_a - count_b\<close>.
\<close>

theorem compare_counts_exclusive:
  "count_a (scan_file_compare uw (Some src) rp a b ci lpf mask_flag) =
     int (length (filter
       (\<lambda>t. (if ci then lower (fst t) else fst t) = (if ci then lower a else a))
       (iter_identifiers_with_pos uw
          (if mask_flag then mask_cpp_comments_and_strings src else src)))) \<and>
   count_b (scan_file_compare uw (Some src) rp a b ci lpf mask_flag) =
     int (length (filter
       (\<lambda>t. (if ci then lower (fst t) else fst t) \<noteq> (if ci then lower a else a) \<and>
            (if ci then lower (fst t) else fst t) = (if ci then lower b else b))
       (iter_identifiers_with_pos uw
          (if mask_flag then mask_cpp_comments_and_strings src else src)))) \<and>
   count_a (scan_file_compare uw (Some src) rp a b ci lpf mask_flag) +
     count_b (scan_file_compare uw (Some src) rp a b ci lpf mask_flag)
     \<le> int (length (iter_identifiers_with_pos uw
          (if mask_flag then mask_cpp_comments_and_strings src else src))) \<and>
   (\<forall>r \<in> set (run_rows (cmd_compare fl uw files a b ci expect ratio tolerance lpf mask_flag)).
      diff r = count_a r - count_b r) \<and>
   diff (run_overall_row (cmd_compare fl uw files a b ci expect ratio tolerance lpf mask_flag)) =
     count_a (run_overall_row (cmd_compare fl uw files a b ci expect ratio tolerance lpf mask_flag)) -
     count_b (run_overall_row (cmd_compare fl uw files a b ci expect ratio tolerance lpf mask_flag))"
proof -
  let ?toks = "iter_identifiers_with_pos uw
          (if mask_flag then mask_cpp_comments_and_strings src else src)"
  let ?A = "\<lambda>t. (if ci then lower (fst t) else fst t) = (if ci then lower a else a)"
  let ?B = "\<lambda>t. (if ci then lower (fst t) else fst t) \<noteq> (if ci then lower a else a) \<and>
            (if ci then lower (fst t) else fst t) = (if ci then lower b else b)"
  let ?row = "scan_file_compare uw (Some src) rp a b ci lpf mask_flag"
  have ca: "count_a ?row = int (length (filter ?A ?toks))"
    using scan_file_compare_fields [of uw src rp a b ci lpf mask_flag]
      compare_fold_counts [of rp "if ci then lower a else a" "if ci then lower b else b" ci lpf
        ?toks "(0, 0, [], [])"]
    by simp
  have cb: "count_b ?row = int (length (filter ?B ?toks))"
    using scan_file_compare_fields [of uw src rp a b ci lpf mask_flag]
      compare_fold_counts [of rp "if ci then lower a else a" "if ci then lower b else b" ci lpf
        ?toks "(0, 0, [], [])"]
    by simp
  have "length (filter ?A ?toks) + length (filter ?B ?toks) = length (filter (\<lambda>t. ?A t \<or> ?B t) ?toks)"
    by (rule length_filter_disjoint) simp
  also have "\<dots> \<le> length ?toks" by (rule length_filter_le)
  finally have le: "count_a ?row + count_b ?row \<le> int (length ?toks)"
    unfolding ca cb by linarith
  have rows: "\<forall>r \<in> set (run_rows (cmd_compare fl uw files a b ci expect ratio tolerance lpf mask_flag)).
      diff r = count_a r - count_b r"
    by (auto simp: cmd_compare_def Let_def scan_file_compare_diff)
  have tot: "diff (run_overall_row (cmd_compare fl uw files a b ci expect ratio tolerance lpf mask_flag)) =
     count_a (run_overall_row (cmd_compare fl uw files a b ci expect ratio tolerance lpf mask_flag)) -
     count_b (run_overall_row (cmd_compare fl uw files a b ci expect ratio tolerance lpf mask_flag))"
    by (simp add: cmd_compare_def Let_def)
  from ca cb le rows tot show ?thesis by blast
qed

theorem compare_counts_exclusive_witness:
  "hd (run_rows (cmd_compare int_ops ascii_only
         [(''f.cpp'', Some ''Elefant ELEFANT elefant giraffe x'')]
         ''Elefant'' ''Giraffe'' True ''equal'' 1 0 5 True))
     \<in> set (run_rows (cmd_compare int_ops ascii_only
         [(''f.cpp'', Some ''Elefant ELEFANT elefant giraffe x'')]
         ''Elefant'' ''Giraffe'' True ''equal'' 1 0 5 True)) \<and>
   count_a (hd (run_rows (cmd_compare int_ops ascii_only
         [(''f.cpp'', Some ''Elefant ELEFANT elefant giraffe x'')]
         ''Elefant'' ''Giraffe'' True ''equal'' 1 0 5 True))) = 3 \<and>
   count_b (hd (run_rows (cmd_compare int_ops ascii_only
         [(''f.cpp'', Some ''Elefant ELEFANT elefant giraffe x'')]
         ''Elefant'' ''Giraffe'' True ''equal'' 1 0 5 True))) = 1 \<and>
   diff (hd (run_rows (cmd_compare int_ops ascii_only
         [(''f.cpp'', Some ''Elefant ELEFANT elefant giraffe x'')]
         ''Elefant'' ''Giraffe'' True ''equal'' 1 0 5 True))) = 2"
proof -
  let ?run = "cmd_compare int_ops ascii_only
         [(''f.cpp'', Some ''Elefant ELEFANT elefant giraffe x'')]
         ''Elefant'' ''Giraffe'' True ''equal'' 1 0 5 True"
  have rows: "map (\<lambda>r. (count_a r, count_b r)) (run_rows ?run) = [(3, 1)]"
    by code_simp
  then obtain r where r: "run_rows ?run = [r]" by auto
  with rows have c: "count_a r = 3" "count_b r = 1" by simp_all
  from compare_counts_exclusive [of ascii_only "[]" "[]" "''Elefant''" "''Giraffe''" True 5 True
      int_ops "[(''f.cpp'', Some ''Elefant ELEFANT elefant giraffe x'')]" "''equal''" 1 0]
  have "\<forall>r \<in> set (run_rows ?run). diff r = count_a r - count_b r" by blast
  with r c have "diff r = 2" by simp
  with r c show ?thesis by simp
qed


text \<open>
  Claim C7. When reading a file raises an error, \<open>scan_file_near\<close> returns the empty
  mapping and \<open>scan_file_compare\<close> a row with \<open>count_a = count_b = diff = 0\<close> and empty
  occurrence lists. The other files are not affected: the near aggregate is the one of
  the run without that file, the rows of the other files are the same, and so is the
  total row.
\<close>

theorem unreadable_file_contributes_nothing:
  "scan_file_near uw None rp needle max_dist ci sfc ign cap mask_flag = [] \<and>
   scan_file_compare uw None rp a b ci lpf mask_flag =
     \<lparr>row_path = rp, count_a = 0, count_b = 0, diff = 0, locs_a = [], locs_b = []\<rparr> \<and>
   cmd_near_agg uw (fs1 @ [(rp, None)] @ fs2) needle max_dist ci sfc ign cap mask_flag =
     cmd_near_agg uw (fs1 @ fs2) needle max_dist ci sfc ign cap mask_flag \<and>
   run_rows (cmd_compare fl uw (fs1 @ [(rp, None)] @ fs2) a b ci expect ratio tolerance lpf mask_flag) =
     run_rows (cmd_compare fl uw fs1 a b ci expect ratio tolerance lpf mask_flag) @
     [\<lparr>row_path = rp, count_a = 0, count_b = 0, diff = 0, locs_a = [], locs_b = []\<rparr>] @
     run_rows (cmd_compare fl uw fs2 a b ci expect ratio tolerance lpf mask_flag) \<and>
   run_overall_row
       (cmd_compare fl uw (fs1 @ [(rp, None)] @ fs2) a b ci expect ratio tolerance lpf mask_flag) =
     run_overall_row (cmd_compare fl uw (fs1 @ fs2) a b ci expect ratio tolerance lpf mask_flag)"
  by (simp add: scan_file_near_def scan_file_compare_def cmd_near_agg_def cmd_near_partials_def
        near_merge_partial_def cmd_compare_def Let_def)

text \<open>
  Claim C8. The value \<open>cmd_compare\<close> returns is 0 for every run that completes,
  whatever the expectation, the ratio and the tolerance are and whether or not the
  checks pass: two runs that differ only in these return the same status.
\<close>

theorem compare_exit_status:
  "run_status (cmd_compare fl uw files a b ci expect ratio tolerance lpf mask_flag) = 0 \<and>
   run_status (cmd_compare fl uw files a b ci expect ratio tolerance lpf mask_flag) =
     run_status (cmd_compare fl' uw files a b ci expect' ratio' tolerance' lpf mask_flag)"
  by (simp add: cmd_compare_def Let_def)

end
